theory Spec2Isabelle
  imports Complex_Main
begin

section \<open>Conventions\<close>

text \<open>
  The development embeds the verification core and the orchestration workflows of the
  compliance repository. A Python \<^verbatim>\<open>float\<close> is modelled by the real number it denotes: in
  the similarity heuristics of Tier 2 every operation rounds its result explicitly,
  elsewhere (the means and thresholds of the NLI checker, the scores of the workflows) the
  arithmetic is exact. Python \<^verbatim>\<open>str\<close> is modelled as \<^typ>\<open>string\<close> restricted to ASCII text,
  \<^verbatim>\<open>None\<close>-able fields as \<^typ>\<open>'a option\<close>, and exceptions as the left summand of a sum type.
\<close>

subsection \<open>String helpers (\<^verbatim>\<open>str.lower\<close>, \<^verbatim>\<open>str.strip\<close>, regular-expression character classes)\<close>

definition lower_char :: "char \<Rightarrow> char" where
  "lower_char c =
     (case map_of (zip ''ABCDEFGHIJKLMNOPQRSTUVWXYZ'' ''abcdefghijklmnopqrstuvwxyz'') c of
        Some l \<Rightarrow> l
      | None \<Rightarrow> c)"

definition lower :: "string \<Rightarrow> string" where
  "lower s = map lower_char s"

definition is_space :: "char \<Rightarrow> bool" where
  "is_space c \<longleftrightarrow> (let n = (of_char c :: nat) in (9 \<le> n \<and> n \<le> 13) \<or> (28 \<le> n \<and> n \<le> 32))"

definition strip :: "string \<Rightarrow> string" where
  "strip s = rev (dropWhile is_space (rev (dropWhile is_space s)))"

definition is_alpha :: "char \<Rightarrow> bool" where
  "is_alpha c \<longleftrightarrow> c \<in> set ''abcdefghijklmnopqrstuvwxyzABCDEFGHIJKLMNOPQRSTUVWXYZ''"

definition is_word_char :: "char \<Rightarrow> bool" where
  "is_word_char c \<longleftrightarrow> is_alpha c \<or> c \<in> set ''0123456789_''"

definition digit_char :: "nat \<Rightarrow> char" where
  "digit_char n = ''0123456789'' ! (n mod 10)"

text \<open>\<^verbatim>\<open>repr\<close> of a string without quote characters.\<close>

definition quoted :: "string \<Rightarrow> string" where
  "quoted s = [CHR 0x27] @ s @ [CHR 0x27]"

section \<open>Rule data model (external, read-only)\<close>

text \<open>
  \<^verbatim>\<open>ConditionSpec\<close> / \<^verbatim>\<open>ConditionGroupSpec\<close>, \<^verbatim>\<open>DecisionLeaf\<close> / \<^verbatim>\<open>DecisionNode\<close>
  and \<^verbatim>\<open>Rule\<close> are declared outside the verification package; only the fields that
  \<^verbatim>\<open>cross_rule.py\<close> reads are kept.
\<close>

datatype condition =
    ConditionSpec (field: string) (operator: string) (cond_value: string)
  | ConditionGroupSpec (all_items: "condition list option") (any_items: "condition list option")

datatype decision =
    DecisionLeaf (result: string)
  | DecisionNode (node_condition: "condition option")
      (true_branch: "decision option") (false_branch: "decision option")

record date =
  year :: nat
  month :: nat
  day :: nat

record rule =
  rule_id :: string
  applies_if :: "condition option"
  decision_tree :: "decision option"
  effective_from :: "date option"
  effective_to :: "date option"

text \<open>\<^verbatim>\<open>datetime.date\<close> compares by (year, month, day); \<^verbatim>\<open>max\<close> and \<^verbatim>\<open>min\<close> return
  their first argument unless the second is strictly greater, respectively smaller.\<close>

definition date_lt :: "date \<Rightarrow> date \<Rightarrow> bool" where
  "date_lt a b \<longleftrightarrow>
     year a < year b \<or> (year a = year b \<and> (month a < month b \<or> (month a = month b \<and> day a < day b)))"

definition date_le :: "date \<Rightarrow> date \<Rightarrow> bool" where
  "date_le a b \<longleftrightarrow>
     year a < year b \<or> (year a = year b \<and> (month a < month b \<or> (month a = month b \<and> day a \<le> day b)))"

definition date_max :: "date \<Rightarrow> date \<Rightarrow> date" where
  "date_max a b = (if date_lt a b then b else a)"

definition date_min :: "date \<Rightarrow> date \<Rightarrow> date" where
  "date_min a b = (if date_lt b a then b else a)"

text \<open>\<^verbatim>\<open>date.isoformat()\<close>: \<^verbatim>\<open>YYYY-MM-DD\<close>, for the years 1 to 9999 a \<^verbatim>\<open>date\<close> can hold.\<close>

definition isoformat :: "date \<Rightarrow> string" where
  "isoformat d =
     [digit_char (year d div 1000), digit_char (year d div 100), digit_char (year d div 10),
      digit_char (year d)] @ ''-'' @
     [digit_char (month d div 10), digit_char (month d)] @ ''-'' @
     [digit_char (day d div 10), digit_char (day d)]"

section \<open>Tier 4: \<^verbatim>\<open>CrossRuleChecker\<close> (\<^verbatim>\<open>verification/cross_rule.py\<close>)\<close>

text \<open>A \<^verbatim>\<open>ConsistencyEvidence\<close> without its free-text \<^verbatim>\<open>details\<close> and its wall-clock
  \<^verbatim>\<open>timestamp\<close>.\<close>

record evidence =
  ev_tier :: nat
  category :: string
  label :: string
  score :: real
  rule_element :: "string option"

definition CONTRADICTING_OUTCOMES :: "(string \<times> string) list" where
  "CONTRADICTING_OUTCOMES =
     [(''permitted'', ''prohibited''),
      (''required'', ''forbidden''),
      (''authorized'', ''denied''),
      (''compliant'', ''non_compliant''),
      (''exempt'', ''subject_to''),
      (''allowed'', ''forbidden''),
      (''mandatory'', ''optional'')]"

definition MIN_DATE :: date where
  "MIN_DATE = \<lparr>year = 1900, month = 1, day = 1\<rparr>"

definition MAX_DATE :: date where
  "MAX_DATE = \<lparr>year = 2999, month = 12, day = 31\<rparr>"

text \<open>\<^verbatim>\<open>if condition.all: items.extend(condition.all)\<close>: an absent and an empty list
  both contribute nothing.\<close>

definition items_of :: "'a list option \<Rightarrow> 'a list" where
  "items_of xs = (case xs of None \<Rightarrow> [] | Some ys \<Rightarrow> ys)"

lemma items_of_size:
  assumes "x \<in> set (items_of al)"
  shows "size x < Suc (size_option (size_list size) al)"
proof (cases al)
  case None
  with assms show ?thesis by (simp add: items_of_def)
next
  case (Some ys)
  with assms have "x \<in> set ys" by (simp add: items_of_def)
  then have "size x \<le> size_list size ys" by (rule size_list_estimation') simp
  with Some show ?thesis by simp
qed

function extract_condition_fields :: "condition \<Rightarrow> string set" where
  "extract_condition_fields (ConditionSpec f opr v) = (if f \<noteq> [] then {f} else {})"
| "extract_condition_fields (ConditionGroupSpec al an) =
     (\<Union>item \<in> set (items_of al @ items_of an). extract_condition_fields item)"
  by pat_completeness auto
termination
  by (relation "measure size") (auto dest: items_of_size)

fun traverse :: "decision \<Rightarrow> string list" where
  "traverse (DecisionLeaf r) = (if r \<noteq> [] then [strip (lower r)] else [])"
| "traverse (DecisionNode c tb fb) =
     (case tb of None \<Rightarrow> [] | Some t \<Rightarrow> traverse t) @
     (case fb of None \<Rightarrow> [] | Some f \<Rightarrow> traverse f)"

definition extract_outcomes :: "rule \<Rightarrow> string list" where
  "extract_outcomes r = (case decision_tree r of None \<Rightarrow> [] | Some n \<Rightarrow> traverse n)"

definition are_contradicting :: "string \<Rightarrow> string \<Rightarrow> bool" where
  "are_contradicting outcome1 outcome2 \<longleftrightarrow>
     (outcome1, outcome2) \<in> set CONTRADICTING_OUTCOMES \<or>
     (outcome2, outcome1) \<in> set CONTRADICTING_OUTCOMES"

definition conditions_overlap :: "rule \<Rightarrow> rule \<Rightarrow> bool" where
  "conditions_overlap rule1 rule2 =
     (case (applies_if rule1, applies_if rule2) of
        (Some c1, Some c2) \<Rightarrow>
          (let fields1 = extract_condition_fields c1;
               fields2 = extract_condition_fields c2
           in if fields1 \<noteq> {} \<and> fields2 \<noteq> {} \<and> fields1 \<inter> fields2 = {} then False else True)
      | _ \<Rightarrow> True)"

record contradiction =
  c_rule1_id :: string
  c_rule1_outcome :: string
  c_rule2_id :: string
  c_rule2_outcome :: string
  c_conditions_overlap :: bool

text \<open>The nested loops of \<^verbatim>\<open>check_contradiction\<close> that fill the list \<^verbatim>\<open>contradictions\<close>.\<close>

definition contradictions :: "rule \<Rightarrow> rule list \<Rightarrow> contradiction list" where
  "contradictions r related_rules =
     [\<lparr>c_rule1_id = rule_id r, c_rule1_outcome = p_outcome,
       c_rule2_id = rule_id other, c_rule2_outcome = o_outcome,
       c_conditions_overlap = conditions_overlap r other\<rparr>.
        other \<leftarrow> related_rules, rule_id other \<noteq> rule_id r,
        p_outcome \<leftarrow> extract_outcomes r, o_outcome \<leftarrow> extract_outcomes other,
        are_contradicting p_outcome o_outcome]"

text \<open>\<^verbatim>\<open>check_contradiction\<close> returns the evidence; the severity of the local
  \<^verbatim>\<open>ContradictionResult\<close> is returned beside it.\<close>

definition check_contradiction :: "rule list \<Rightarrow> rule \<Rightarrow> evidence \<times> string" where
  "check_contradiction related_rules r =
     (if related_rules = [] then
        (\<lparr>ev_tier = 4, category = ''no_contradiction'', label = ''pass'', score = 1.0,
          rule_element = None\<rparr>, ''none'')
      else
        let cs = contradictions r related_rules;
            (lbl, sc, severity) =
              (if cs = [] then (''pass'', 1.0, ''none'')
               else if list_ex c_conditions_overlap cs then (''fail'', 0.2, ''high'')
               else (''warning'', 0.7, ''low''))
        in (\<lparr>ev_tier = 4, category = ''no_contradiction'', label = lbl, score = sc,
             rule_element = Some ''decision_tree''\<rparr>, severity))"

text \<open>The conflict test shared by the hierarchy and temporal checks: the two nested loops
  that set \<^verbatim>\<open>has_conflict\<close> and break.\<close>

definition has_conflict :: "rule \<Rightarrow> rule \<Rightarrow> bool" where
  "has_conflict r other =
     list_ex (\<lambda>p_outcome. list_ex (\<lambda>o_outcome. are_contradicting p_outcome o_outcome)
                (extract_outcomes other)) (extract_outcomes r)"

definition or_date :: "date option \<Rightarrow> date \<Rightarrow> date" where
  "or_date d dflt = (case d of None \<Rightarrow> dflt | Some x \<Rightarrow> x)"

definition periods_overlap ::
    "date option \<Rightarrow> date option \<Rightarrow> date option \<Rightarrow> date option \<Rightarrow> bool \<times> date option \<times> date option" where
  "periods_overlap start1 end1 start2 end2 =
     (let s1 = or_date start1 MIN_DATE;
          e1 = or_date end1 MAX_DATE;
          s2 = or_date start2 MIN_DATE;
          e2 = or_date end2 MAX_DATE;
          overlap_start = date_max s1 s2;
          overlap_end = date_min e1 e2;
          overlaps = date_le overlap_start overlap_end
      in (overlaps,
          (if overlaps then Some overlap_start else None),
          (if overlaps then Some overlap_end else None)))"

record temporal_conflict =
  t_rule1_id :: string
  t_rule2_id :: string
  overlap_start :: "string option"
  overlap_end :: "string option"

definition overlapping_conflicts :: "rule \<Rightarrow> rule list \<Rightarrow> temporal_conflict list" where
  "overlapping_conflicts r related_rules =
     concat (map (\<lambda>other.
        if rule_id other = rule_id r then []
        else if \<not> has_conflict r other then []
        else
          (case periods_overlap (effective_from r) (effective_to r)
                  (effective_from other) (effective_to other) of
             (overlaps, ostart, oend) \<Rightarrow>
               if overlaps then
                 [\<lparr>t_rule1_id = rule_id r, t_rule2_id = rule_id other,
                   overlap_start = map_option isoformat ostart,
                   overlap_end = map_option isoformat oend\<rparr>]
               else [])) related_rules)"

definition check_temporal_consistency :: "rule list \<Rightarrow> rule \<Rightarrow> evidence" where
  "check_temporal_consistency related_rules r =
     (if related_rules = [] then
        \<lparr>ev_tier = 4, category = ''temporal_consistent'', label = ''pass'', score = 1.0,
         rule_element = None\<rparr>
      else if overlapping_conflicts r related_rules = [] then
        \<lparr>ev_tier = 4, category = ''temporal_consistent'', label = ''pass'', score = 1.0,
         rule_element = Some ''effective_from,effective_to''\<rparr>
      else
        \<lparr>ev_tier = 4, category = ''temporal_consistent'', label = ''warning'', score = 0.5,
         rule_element = Some ''effective_from,effective_to''\<rparr>)"

subsection \<open>Example rules\<close>

definition example_rule_a :: rule where
  "example_rule_a =
     \<lparr>rule_id = ''rule_a'', applies_if = Some (ConditionSpec ''amount'' ''>'' ''100''),
      decision_tree = Some (DecisionNode None (Some (DecisionLeaf ''Permitted'')) None),
      effective_from = Some \<lparr>year = 2024, month = 1, day = 1\<rparr>,
      effective_to = Some \<lparr>year = 2024, month = 6, day = 30\<rparr>\<rparr>"

definition example_rule_b :: rule where
  "example_rule_b =
     \<lparr>rule_id = ''rule_b'', applies_if = None,
      decision_tree = Some (DecisionLeaf ''prohibited ''),
      effective_from = Some \<lparr>year = 2024, month = 6, day = 1\<rparr>,
      effective_to = Some \<lparr>year = 2024, month = 12, day = 31\<rparr>\<rparr>"

definition example_rule_c :: rule where
  "example_rule_c =
     \<lparr>rule_id = ''rule_c'',
      applies_if = Some (ConditionGroupSpec (Some [ConditionSpec ''country'' ''=='' ''US'']) None),
      decision_tree = Some (DecisionLeaf ''prohibited''),
      effective_from = Some \<lparr>year = 2024, month = 7, day = 1\<rparr>,
      effective_to = Some \<lparr>year = 2024, month = 12, day = 31\<rparr>\<rparr>"

subsection \<open>The order on dates\<close>

lemma date_le_refl: "date_le a a"
  by (simp add: date_le_def)

lemma date_lt_imp_le: "date_lt a b \<Longrightarrow> date_le a b"
  by (auto simp: date_le_def date_lt_def)

lemma date_not_lt_imp_le: "\<not> date_lt a b \<Longrightarrow> date_le b a"
  by (auto simp: date_le_def date_lt_def)

lemma date_le_trans: "date_le a b \<Longrightarrow> date_le b c \<Longrightarrow> date_le a c"
  by (auto simp: date_le_def)

lemma date_le_antisym: "date_le a b \<Longrightarrow> date_le b a \<Longrightarrow> (a::date) = b"
  by (auto simp: date_le_def)

lemma date_max_greatest:
  "date_le a (date_max a b) \<and> date_le b (date_max a b) \<and> date_max a b \<in> {a, b}"
  by (auto simp: date_max_def date_le_refl date_lt_imp_le date_not_lt_imp_le)

lemma date_min_least:
  "date_le (date_min a b) a \<and> date_le (date_min a b) b \<and> date_min a b \<in> {a, b}"
  by (auto simp: date_min_def date_le_refl date_lt_imp_le date_not_lt_imp_le)

subsection \<open>Temporal check\<close>

lemma has_conflict_iff:
  "has_conflict r other \<longleftrightarrow>
     (\<exists>p\<in>set (extract_outcomes r). \<exists>q\<in>set (extract_outcomes other). are_contradicting p q)"
  by (simp add: has_conflict_def list_ex_iff)

lemma overlapping_conflicts_concat:
  "overlapping_conflicts r related =
     concat (map (\<lambda>other. overlapping_conflicts r [other]) related)"
  by (simp add: overlapping_conflicts_def)

text \<open>
  Claim C3. For a primary rule and another rule (a different \<^verbatim>\<open>rule_id\<close>: the check skips
  the rule itself) whose outcome lists contain a contradicting pair, the temporal check
  replaces an absent \<^verbatim>\<open>effective_from\<close> by 1900-01-01 and an absent \<^verbatim>\<open>effective_to\<close> by
  2999-12-31, and records a temporal conflict (label \<^verbatim>\<open>warning\<close>) if and only if the
  later of the two starts is not after the earlier of the two ends; the conflict carries
  the later start as \<^verbatim>\<open>overlap_start\<close> and the earlier end as \<^verbatim>\<open>overlap_end\<close>. Over a
  corpus the conflicts are those of its rules, one by one and in order.
\<close>

theorem temporal_overlap_rule:
  assumes ids: "rule_id other \<noteq> rule_id r"
    and conflict:
      "\<exists>p\<in>set (extract_outcomes r). \<exists>q\<in>set (extract_outcomes other). are_contradicting p q"
  shows
    "(let s1 = (case effective_from r of None \<Rightarrow> \<lparr>year = 1900, month = 1, day = 1\<rparr> | Some d \<Rightarrow> d);
          e1 = (case effective_to r of None \<Rightarrow> \<lparr>year = 2999, month = 12, day = 31\<rparr> | Some d \<Rightarrow> d);
          s2 = (case effective_from other of None \<Rightarrow> \<lparr>year = 1900, month = 1, day = 1\<rparr> | Some d \<Rightarrow> d);
          e2 = (case effective_to other of None \<Rightarrow> \<lparr>year = 2999, month = 12, day = 31\<rparr> | Some d \<Rightarrow> d);
          ostart = date_max s1 s2;
          oend = date_min e1 e2
      in periods_overlap (effective_from r) (effective_to r)
             (effective_from other) (effective_to other) =
           (if date_le ostart oend then (True, Some ostart, Some oend) else (False, None, None)) \<and>
         overlapping_conflicts r [other] =
           (if date_le ostart oend
            then [\<lparr>t_rule1_id = rule_id r, t_rule2_id = rule_id other,
                   overlap_start = Some (isoformat ostart), overlap_end = Some (isoformat oend)\<rparr>]
            else []) \<and>
         (label (check_temporal_consistency [other] r) = ''warning'' \<longleftrightarrow> date_le ostart oend) \<and>
         (label (check_temporal_consistency [other] r) = ''pass'' \<longleftrightarrow> \<not> date_le ostart oend)) \<and>
     (\<forall>related. overlapping_conflicts r related =
        concat (map (\<lambda>x. overlapping_conflicts r [x]) related))"
proof -
  have hc: "has_conflict r other"
    using conflict by (simp add: has_conflict_iff)
  have single: "(let s1 = (case effective_from r of None \<Rightarrow> \<lparr>year = 1900, month = 1, day = 1\<rparr> | Some d \<Rightarrow> d);
          e1 = (case effective_to r of None \<Rightarrow> \<lparr>year = 2999, month = 12, day = 31\<rparr> | Some d \<Rightarrow> d);
          s2 = (case effective_from other of None \<Rightarrow> \<lparr>year = 1900, month = 1, day = 1\<rparr> | Some d \<Rightarrow> d);
          e2 = (case effective_to other of None \<Rightarrow> \<lparr>year = 2999, month = 12, day = 31\<rparr> | Some d \<Rightarrow> d);
          ostart = date_max s1 s2;
          oend = date_min e1 e2
      in periods_overlap (effective_from r) (effective_to r)
             (effective_from other) (effective_to other) =
           (if date_le ostart oend then (True, Some ostart, Some oend) else (False, None, None)) \<and>
         overlapping_conflicts r [other] =
           (if date_le ostart oend
            then [\<lparr>t_rule1_id = rule_id r, t_rule2_id = rule_id other,
                   overlap_start = Some (isoformat ostart), overlap_end = Some (isoformat oend)\<rparr>]
            else []) \<and>
         (label (check_temporal_consistency [other] r) = ''warning'' \<longleftrightarrow> date_le ostart oend) \<and>
         (label (check_temporal_consistency [other] r) = ''pass'' \<longleftrightarrow> \<not> date_le ostart oend))"
    using ids hc
    by (cases "effective_from r"; cases "effective_to r";
        cases "effective_from other"; cases "effective_to other")
       (simp_all add: Let_def periods_overlap_def overlapping_conflicts_def
          check_temporal_consistency_def or_date_def MIN_DATE_def MAX_DATE_def)
  have corpus: "\<forall>related. overlapping_conflicts r related =
        concat (map (\<lambda>x. overlapping_conflicts r [x]) related)"
    using overlapping_conflicts_concat by blast
  from single corpus show ?thesis
    by (rule conjI)
qed

text \<open>The two examples of the specification: A = [2024-01-01, 2024-06-30] against
  B = [2024-06-01, 2024-12-31] overlaps on [2024-06-01, 2024-06-30]; C = [2024-07-01,
  2024-12-31] against A does not overlap.\<close>

theorem temporal_overlap_rule_witness:
  "overlapping_conflicts example_rule_a [example_rule_b] =
     [\<lparr>t_rule1_id = ''rule_a'', t_rule2_id = ''rule_b'',
       overlap_start = Some ''2024-06-01'', overlap_end = Some ''2024-06-30''\<rparr>] \<and>
   label (check_temporal_consistency [example_rule_b] example_rule_a) = ''warning'' \<and>
   overlapping_conflicts example_rule_c [example_rule_a] = [] \<and>
   label (check_temporal_consistency [example_rule_a] example_rule_c) = ''pass''"
  using temporal_overlap_rule [of example_rule_b example_rule_a, THEN conjunct1]
    temporal_overlap_rule [of example_rule_a example_rule_c, THEN conjunct1]
  by (simp add: Let_def example_rule_a_def example_rule_b_def example_rule_c_def
      extract_outcomes_def strip_def lower_def lower_char_def is_space_def
      are_contradicting_def CONTRADICTING_OUTCOMES_def date_max_def date_min_def
      date_lt_def date_le_def isoformat_def digit_char_def)

subsection \<open>Contradiction check\<close>

lemma in_contradictions:
  "c \<in> set (contradictions r related) \<longleftrightarrow>
     (\<exists>other\<in>set related. rule_id other \<noteq> rule_id r \<and>
        (\<exists>p\<in>set (extract_outcomes r). \<exists>q\<in>set (extract_outcomes other).
           are_contradicting p q \<and>
           c = \<lparr>c_rule1_id = rule_id r, c_rule1_outcome = p,
                 c_rule2_id = rule_id other, c_rule2_outcome = q,
                 c_conditions_overlap = conditions_overlap r other\<rparr>))"
  unfolding contradictions_def by (force split: if_splits)

lemma contradictions_empty_iff:
  "contradictions r related = [] \<longleftrightarrow>
     \<not> (\<exists>other\<in>set related. rule_id other \<noteq> rule_id r \<and>
           (\<exists>p\<in>set (extract_outcomes r). \<exists>q\<in>set (extract_outcomes other).
              are_contradicting p q))"
proof -
  have "contradictions r related = [] \<longleftrightarrow> (\<forall>c. c \<notin> set (contradictions r related))"
    by (cases "contradictions r related") auto
  then show ?thesis
    unfolding in_contradictions by blast
qed

lemma contradictions_overlap_iff:
  "list_ex c_conditions_overlap (contradictions r related) \<longleftrightarrow>
     (\<exists>other\<in>set related. rule_id other \<noteq> rule_id r \<and>
        (\<exists>p\<in>set (extract_outcomes r). \<exists>q\<in>set (extract_outcomes other).
           are_contradicting p q) \<and>
        conditions_overlap r other)"
  unfolding list_ex_iff Bex_def in_contradictions by force

lemma conditions_overlap_iff:
  "conditions_overlap r1 r2 \<longleftrightarrow>
     \<not> (\<exists>c1 c2. applies_if r1 = Some c1 \<and> applies_if r2 = Some c2 \<and>
           extract_condition_fields c1 \<noteq> {} \<and> extract_condition_fields c2 \<noteq> {} \<and>
           extract_condition_fields c1 \<inter> extract_condition_fields c2 = {})"
  by (auto simp: conditions_overlap_def Let_def split: option.splits)

text \<open>
  Claim C4. With a non-empty related-rules corpus, \<^verbatim>\<open>check_contradiction\<close> returns label
  \<^verbatim>\<open>pass\<close> and score 1.0 when no other rule (different \<^verbatim>\<open>rule_id\<close>) has an outcome that
  forms a pair of the fixed table, in either order, with an outcome of the primary rule;
  label \<^verbatim>\<open>fail\<close> and score 0.2 when some such rule also has overlapping conditions; label
  \<^verbatim>\<open>warning\<close> and score 0.7 when such rules exist and none has overlapping conditions.
  Conditions overlap unless both rules have an \<^verbatim>\<open>applies_if\<close> and the two collected field
  sets are non-empty and disjoint.
\<close>

theorem check_contradiction_severity:
  assumes "related \<noteq> []"
  shows
    "(let ev = fst (check_contradiction related r);
          contradicts = (\<lambda>other. rule_id other \<noteq> rule_id r \<and>
             (\<exists>p\<in>set (extract_outcomes r). \<exists>q\<in>set (extract_outcomes other).
                 (p, q) \<in> set CONTRADICTING_OUTCOMES \<or> (q, p) \<in> set CONTRADICTING_OUTCOMES))
      in (label ev, score ev) =
           (if \<not> (\<exists>other\<in>set related. contradicts other) then (''pass'', 1.0)
            else if \<exists>other\<in>set related. contradicts other \<and> conditions_overlap r other
                 then (''fail'', 0.2)
            else (''warning'', 0.7))) \<and>
     (\<forall>r1 r2. conditions_overlap r1 r2 \<longleftrightarrow>
        \<not> (\<exists>c1 c2. applies_if r1 = Some c1 \<and> applies_if r2 = Some c2 \<and>
              extract_condition_fields c1 \<noteq> {} \<and> extract_condition_fields c2 \<noteq> {} \<and>
              extract_condition_fields c1 \<inter> extract_condition_fields c2 = {}))"
proof -
  let ?contradicts = "\<lambda>other. rule_id other \<noteq> rule_id r \<and>
     (\<exists>p\<in>set (extract_outcomes r). \<exists>q\<in>set (extract_outcomes other).
         (p, q) \<in> set CONTRADICTING_OUTCOMES \<or> (q, p) \<in> set CONTRADICTING_OUTCOMES)"
  have e: "contradictions r related = [] \<longleftrightarrow> \<not> (\<exists>other\<in>set related. ?contradicts other)"
    unfolding contradictions_empty_iff are_contradicting_def by blast
  have o: "list_ex c_conditions_overlap (contradictions r related) \<longleftrightarrow>
           (\<exists>other\<in>set related. ?contradicts other \<and> conditions_overlap r other)"
    unfolding contradictions_overlap_iff are_contradicting_def by blast
  have "(let ev = fst (check_contradiction related r)
          in (label ev, score ev) =
               (if \<not> (\<exists>other\<in>set related. ?contradicts other) then (''pass'', 1.0)
                else if \<exists>other\<in>set related. ?contradicts other \<and> conditions_overlap r other
                     then (''fail'', 0.2)
                else (''warning'', 0.7)))"
    using assms unfolding check_contradiction_def Let_def e o by (simp split: if_splits)
  then show ?thesis
    using conditions_overlap_iff by (simp add: Let_def)
qed

theorem check_contradiction_severity_witness:
  "[example_rule_b] \<noteq> [] \<and>
   label (fst (check_contradiction [example_rule_b] example_rule_a)) = ''fail'' \<and>
   score (fst (check_contradiction [example_rule_b] example_rule_a)) = 0.2 \<and>
   label (fst (check_contradiction [example_rule_c] example_rule_a)) = ''warning'' \<and>
   score (fst (check_contradiction [example_rule_c] example_rule_a)) = 0.7 \<and>
   label (fst (check_contradiction [example_rule_c] example_rule_b)) = ''pass''"
  using check_contradiction_severity [of "[example_rule_b]" example_rule_a]
    check_contradiction_severity [of "[example_rule_c]" example_rule_a]
    check_contradiction_severity [of "[example_rule_c]" example_rule_b]
  by (simp add: Let_def example_rule_a_def example_rule_b_def example_rule_c_def
      extract_outcomes_def strip_def lower_def lower_char_def is_space_def
      CONTRADICTING_OUTCOMES_def conditions_overlap_def items_of_def)

section \<open>Regular-expression helpers\<close>

text \<open>
  Regular expressions. \<^verbatim>\<open>\b\<close> holds at position \<open>k\<close> when exactly one of the characters
  before and after \<open>k\<close> is a word character (the ends of the text count as non-word).
  \<open>search_word w\<close> is \<^verbatim>\<open>re.search(r"\b" + w + r"\b", text, re.IGNORECASE)\<close> for a literal
  \<open>w\<close>; \<open>findall_alpha n\<close> is \<^verbatim>\<open>re.findall(r"\b[a-zA-Z]{n,}\b", text)\<close>: at each
  position the longest run of letters is tried first and shortened until \<^verbatim>\<open>\b\<close> holds
  behind it, and the scan resumes behind a match.
\<close>

definition at_boundary :: "string \<Rightarrow> nat \<Rightarrow> bool" where
  "at_boundary text k \<longleftrightarrow>
     (0 < k \<and> is_word_char (text ! (k - 1))) \<noteq> (k < length text \<and> is_word_char (text ! k))"

definition search_word :: "string \<Rightarrow> string \<Rightarrow> bool" where
  "search_word w text \<longleftrightarrow>
     list_ex (\<lambda>i. at_boundary text i \<and> lower (take (length w) (drop i text)) = lower w \<and>
                  at_boundary text (i + length w)) [0..<Suc (length text)]"

definition negation_patterns :: "string list" where
  "negation_patterns =
     [''not'', ''no'', ''never'', ''without'', ''prohibited'', ''forbidden'', ''excluded'',
      ''denied'', ''n't'']"

definition has_negation :: "string \<Rightarrow> bool" where
  "has_negation text = list_ex (\<lambda>p. search_word p text) negation_patterns"

definition match_at :: "nat \<Rightarrow> string \<Rightarrow> nat \<Rightarrow> nat option" where
  "match_at n text i =
     (if at_boundary text i then
        find (\<lambda>len. at_boundary text (i + len))
          (rev [n..<Suc (length (takeWhile is_alpha (drop i text)))])
      else None)"

function findall_from :: "nat \<Rightarrow> string \<Rightarrow> nat \<Rightarrow> string list" where
  "findall_from n text i =
     (if length text \<le> i then []
      else case match_at n text i of
             Some len \<Rightarrow> take len (drop i text) # findall_from n text (i + max 1 len)
           | None \<Rightarrow> findall_from n text (Suc i))"
  by pat_completeness auto
termination
  by (relation "measure (\<lambda>(n, text, i). length text - i)") auto

declare findall_from.simps [simp del]

definition findall_alpha :: "nat \<Rightarrow> string \<Rightarrow> string list" where
  "findall_alpha n text = findall_from n text 0"

section \<open>Tier 3: \<^verbatim>\<open>NLIChecker\<close> heuristics (\<^verbatim>\<open>verification/nli.py\<close>)\<close>

datatype NLILabel = ENTAILMENT | NEUTRAL | CONTRADICTION

record NLIResult =
  nli_label :: NLILabel
  confidence :: real
  entailment_score :: real
  neutral_score :: real
  contradiction_score :: real

definition classify_heuristic :: "string \<Rightarrow> string \<Rightarrow> NLIResult" where
  "classify_heuristic premise hypothesis =
     (let premise_lower = lower premise;
          hypothesis_lower = lower hypothesis;
          premise_negated = has_negation premise_lower;
          hypothesis_negated = has_negation hypothesis_lower
      in if premise_negated \<noteq> hypothesis_negated then
           \<lparr>nli_label = CONTRADICTION, confidence = 0.6, entailment_score = 0.2,
            neutral_score = 0.2, contradiction_score = 0.6\<rparr>
         else
           let premise_tokens = set (findall_alpha 3 premise_lower);
               hypothesis_tokens = set (findall_alpha 3 hypothesis_lower)
           in if hypothesis_tokens = {} then
                \<lparr>nli_label = NEUTRAL, confidence = 0.4, entailment_score = 0.3,
                 neutral_score = 0.4, contradiction_score = 0.3\<rparr>
              else
                let overlap = premise_tokens \<inter> hypothesis_tokens;
                    overlap_ratio = real (card overlap) / real (card hypothesis_tokens)
                in if overlap_ratio > 0.7 then
                     let conf = 0.5 + (overlap_ratio - 0.7) * 1.0
                     in \<lparr>nli_label = ENTAILMENT, confidence = min conf 0.8,
                         entailment_score = conf, neutral_score = 0.15,
                         contradiction_score = 0.05\<rparr>
                   else if overlap_ratio > 0.4 then
                     \<lparr>nli_label = NEUTRAL, confidence = 0.5, entailment_score = 0.3,
                      neutral_score = 0.5, contradiction_score = 0.2\<rparr>
                   else
                     \<lparr>nli_label = NEUTRAL, confidence = 0.4, entailment_score = 0.25,
                      neutral_score = 0.4, contradiction_score = 0.35\<rparr>)"

text \<open>\<^verbatim>\<open>max(label_counts, key=label_counts.get)\<close>: the keys are visited in insertion order
  and a later key wins only with a strictly greater count.\<close>

fun max_key :: "('a \<Rightarrow> nat) \<Rightarrow> 'a \<Rightarrow> 'a list \<Rightarrow> 'a" where
  "max_key key best [] = best"
| "max_key key best (k # ks) = max_key key (if key k > key best then k else best) ks"

definition label_counts :: "NLIResult list \<Rightarrow> NLILabel \<Rightarrow> nat" where
  "label_counts results l = length (filter (\<lambda>r. nli_label r = l) results)"

definition aggregate_results :: "NLIResult list \<Rightarrow> NLIResult" where
  "aggregate_results results =
     (if results = [] then
        \<lparr>nli_label = NEUTRAL, confidence = 0.5, entailment_score = 0.33,
         neutral_score = 0.34, contradiction_score = 0.33\<rparr>
      else
        let avg_entailment = sum_list (map entailment_score results) / real (length results);
            avg_neutral = sum_list (map neutral_score results) / real (length results);
            avg_contradiction = sum_list (map contradiction_score results) / real (length results)
        in if list_ex (\<lambda>r. nli_label r = CONTRADICTION \<and> confidence r > 0.6) results then
             \<lparr>nli_label = CONTRADICTION,
              confidence =
                (case map confidence (filter (\<lambda>r. nli_label r = CONTRADICTION) results) of
                   c # cs \<Rightarrow> fold max cs c),
              entailment_score = avg_entailment, neutral_score = avg_neutral,
              contradiction_score = avg_contradiction\<rparr>
           else
             let winning_label = max_key (label_counts results) ENTAILMENT [NEUTRAL, CONTRADICTION];
                 avg_confidence = sum_list (map confidence results) / real (length results)
             in \<lparr>nli_label = winning_label, confidence = avg_confidence,
                 entailment_score = avg_entailment, neutral_score = avg_neutral,
                 contradiction_score = avg_contradiction\<rparr>)"

definition example_results :: "NLIResult list" where
  "example_results =
     [\<lparr>nli_label = CONTRADICTION, confidence = 0.6, entailment_score = 0.2,
       neutral_score = 0.2, contradiction_score = 0.6\<rparr>,
      \<lparr>nli_label = NEUTRAL, confidence = 0.4, entailment_score = 0.3,
       neutral_score = 0.4, contradiction_score = 0.3\<rparr>,
      \<lparr>nli_label = NEUTRAL, confidence = 0.5, entailment_score = 0.3,
       neutral_score = 0.5, contradiction_score = 0.2\<rparr>]"

subsection \<open>Heuristic classification\<close>

lemma tokens_permitted: "findall_alpha 3 (lower ''it is permitted'') = [''permitted'']"
  by code_simp

lemma tokens_isnt_permitted:
  "findall_alpha 3 (lower ''it isn't permitted'') = [''isn'', ''permitted'']"
  by code_simp

lemma no_negation_permitted: "has_negation (lower ''it is permitted'') = False"
  by code_simp

lemma no_negation_isnt_permitted: "has_negation (lower ''it isn't permitted'') = False"
  by code_simp

lemma negation_not_permitted: "has_negation (lower ''X is not permitted'') = True"
  by code_simp

lemma no_negation_X_permitted: "has_negation (lower ''X is permitted'') = False"
  by code_simp

text \<open>The example of the specification: a negation on one side only.\<close>

lemma classify_heuristic_not_permitted:
  "classify_heuristic ''X is permitted'' ''X is not permitted'' =
     \<lparr>nli_label = CONTRADICTION, confidence = 0.6, entailment_score = 0.2,
      neutral_score = 0.2, contradiction_score = 0.6\<rparr>"
  unfolding classify_heuristic_def Let_def negation_not_permitted no_negation_X_permitted
  by simp

text \<open>What the classifier computes, in terms of the marker search as the patterns
  implement it.\<close>

lemma classify_heuristic_cases:
  "(let r = classify_heuristic premise hypothesis;
        pt = set (findall_alpha 3 (lower premise));
        ht = set (findall_alpha 3 (lower hypothesis));
        overlap = real (card (pt \<inter> ht)) / real (card ht)
    in (nli_label r = CONTRADICTION \<longleftrightarrow>
          has_negation (lower premise) \<noteq> has_negation (lower hypothesis)) \<and>
       (has_negation (lower premise) \<noteq> has_negation (lower hypothesis) \<longrightarrow>
          confidence r = 0.6) \<and>
       (has_negation (lower premise) = has_negation (lower hypothesis) \<longrightarrow>
          (if ht = {} then nli_label r = NEUTRAL \<and> confidence r = 0.4
           else if overlap > 0.7 then
             nli_label r = ENTAILMENT \<and> confidence r = min (0.5 + (overlap - 0.7)) 0.8
           else if overlap > 0.4 then nli_label r = NEUTRAL \<and> confidence r = 0.5
           else nli_label r = NEUTRAL \<and> confidence r = 0.4)))"
  unfolding classify_heuristic_def Let_def by simp

text \<open>
  Claim C7. The heuristic classifier is to return \<^verbatim>\<open>contradiction\<close> with confidence 0.6
  exactly when the presence of a negation marker (\<^verbatim>\<open>not\<close>, \<^verbatim>\<open>no\<close>, \<^verbatim>\<open>never\<close>,
  \<^verbatim>\<open>without\<close>, \<^verbatim>\<open>prohibited\<close>, \<^verbatim>\<open>forbidden\<close>, \<^verbatim>\<open>excluded\<close>, \<^verbatim>\<open>denied\<close>, \<^verbatim>\<open>n't\<close>)
  differs between premise and hypothesis. The pattern for the contraction marker is
  \<^verbatim>\<open>\bn't\b\<close>, commented \<^verbatim>\<open>contractions: isn't, doesn't, etc.\<close>; its leading \<^verbatim>\<open>\b\<close>
  cannot hold inside a word, so no contraction is ever found. On the premise
  \<^verbatim>\<open>it is permitted\<close> and the hypothesis \<^verbatim>\<open>it isn't permitted\<close> no negation is detected
  on either side and the result is \<^verbatim>\<open>neutral\<close> with confidence 0.5 (one of the two
  hypothesis tokens \<^verbatim>\<open>isn\<close>, \<^verbatim>\<open>permitted\<close> occurs in the premise).
\<close>

theorem classify_heuristic_contraction_missed:
  "search_word ''n't'' (lower ''it isn't permitted'') = False \<and>
   has_negation (lower ''it is permitted'') = False \<and>
   has_negation (lower ''it isn't permitted'') = False \<and>
   classify_heuristic ''it is permitted'' ''it isn't permitted'' =
     \<lparr>nli_label = NEUTRAL, confidence = 0.5, entailment_score = 0.3,
      neutral_score = 0.5, contradiction_score = 0.2\<rparr>"
proof -
  have "search_word ''n't'' (lower ''it isn't permitted'') = False"
    by code_simp
  moreover have "classify_heuristic ''it is permitted'' ''it isn't permitted'' =
     \<lparr>nli_label = NEUTRAL, confidence = 0.5, entailment_score = 0.3,
      neutral_score = 0.5, contradiction_score = 0.2\<rparr>"
    unfolding classify_heuristic_def Let_def tokens_permitted tokens_isnt_permitted
      no_negation_permitted no_negation_isnt_permitted
    by (simp add: card_insert_if)
  ultimately show ?thesis
    using no_negation_permitted no_negation_isnt_permitted by simp
qed

subsection \<open>Aggregation of per-hypothesis results\<close>

lemma fold_max_Max: "fold max cs (c::real) = Max (set (c # cs))"
  using Max.set_eq_fold [of c cs] by simp

lemma label_counts_count_list:
  "label_counts results l = count_list (map nli_label results) l"
  unfolding label_counts_def by (induction results) auto

lemma contradiction_confidence_Max:
  assumes "\<exists>r\<in>set results. nli_label r = CONTRADICTION \<and> confidence r > 0.6"
  shows "(case map confidence (filter (\<lambda>r. nli_label r = CONTRADICTION) results) of
            c # cs \<Rightarrow> fold max cs c) =
         Max {confidence r |r. r \<in> set results \<and> nli_label r = CONTRADICTION}"
proof -
  let ?cs = "map confidence (filter (\<lambda>r. nli_label r = CONTRADICTION) results)"
  have s: "set ?cs = {confidence r |r. r \<in> set results \<and> nli_label r = CONTRADICTION}"
    by auto
  from assms have "?cs \<noteq> []"
    by (auto simp: filter_empty_conv)
  then obtain c cs where eq: "?cs = c # cs"
    by (cases ?cs) auto
  have "fold max cs c = Max (set ?cs)"
    unfolding eq by (rule fold_max_Max)
  then show ?thesis
    unfolding s [symmetric] by (simp add: eq)
qed

lemma max_key_three:
  "max_key v ENTAILMENT [NEUTRAL, CONTRADICTION] =
     (if v NEUTRAL \<le> v ENTAILMENT \<and> v CONTRADICTION \<le> v ENTAILMENT then ENTAILMENT
      else if v CONTRADICTION \<le> v NEUTRAL then NEUTRAL
      else CONTRADICTION)"
  by auto

lemma max_key_three_greatest:
  "v l \<le> v (max_key v ENTAILMENT [NEUTRAL, CONTRADICTION])"
  unfolding max_key_three by (cases l) auto

text \<open>
  Claim C6. For a non-empty list of per-hypothesis results the three component scores of
  the aggregate are the means of the individual component scores. If some result is a
  \<^verbatim>\<open>contradiction\<close> with confidence above 0.6, the aggregate is a \<^verbatim>\<open>contradiction\<close> whose
  confidence is the greatest confidence among the contradiction-labelled results.
  Otherwise the aggregate label has the most votes (no label has more; among labels with
  equally many votes \<^verbatim>\<open>entailment\<close> comes before \<^verbatim>\<open>neutral\<close> before \<^verbatim>\<open>contradiction\<close>)
  and the confidence is the mean of the individual confidences.
\<close>

theorem aggregate_results_rule:
  assumes "results \<noteq> []"
  shows "(let agg = aggregate_results results;
              n = real (length results);
              votes = (\<lambda>l. count_list (map nli_label results) l)
          in entailment_score agg = (\<Sum>r\<leftarrow>results. entailment_score r) / n \<and>
             neutral_score agg = (\<Sum>r\<leftarrow>results. neutral_score r) / n \<and>
             contradiction_score agg = (\<Sum>r\<leftarrow>results. contradiction_score r) / n \<and>
             (if \<exists>r\<in>set results. nli_label r = CONTRADICTION \<and> confidence r > 0.6 then
                nli_label agg = CONTRADICTION \<and>
                confidence agg = Max {confidence r |r. r \<in> set results \<and> nli_label r = CONTRADICTION}
              else
                (\<forall>l. votes l \<le> votes (nli_label agg)) \<and>
                nli_label agg =
                  (if votes NEUTRAL \<le> votes ENTAILMENT \<and> votes CONTRADICTION \<le> votes ENTAILMENT
                   then ENTAILMENT
                   else if votes CONTRADICTION \<le> votes NEUTRAL then NEUTRAL
                   else CONTRADICTION) \<and>
                confidence agg = (\<Sum>r\<leftarrow>results. confidence r) / n))"
proof -
  let ?votes = "\<lambda>l. count_list (map nli_label results) l"
  let ?n = "real (length results)"
  let ?high = "\<exists>r\<in>set results. nli_label r = CONTRADICTION \<and> confidence r > 0.6"
  let ?agg = "aggregate_results results"
  have cnt: "label_counts results = ?votes"
    by (rule ext) (rule label_counts_count_list)
  have scores:
    "entailment_score ?agg = (\<Sum>r\<leftarrow>results. entailment_score r) / ?n \<and>
     neutral_score ?agg = (\<Sum>r\<leftarrow>results. neutral_score r) / ?n \<and>
     contradiction_score ?agg = (\<Sum>r\<leftarrow>results. contradiction_score r) / ?n"
    using assms unfolding aggregate_results_def Let_def by simp
  have high: "nli_label ?agg = CONTRADICTION \<and>
      confidence ?agg = Max {confidence r |r. r \<in> set results \<and> nli_label r = CONTRADICTION}"
    if h: ?high
  proof -
    from h have "list_ex (\<lambda>r. nli_label r = CONTRADICTION \<and> confidence r > 0.6) results"
      unfolding list_ex_iff .
    then have "?agg = \<lparr>nli_label = CONTRADICTION,
        confidence = (case map confidence (filter (\<lambda>r. nli_label r = CONTRADICTION) results) of
                        c # cs \<Rightarrow> fold max cs c),
        entailment_score = (\<Sum>r\<leftarrow>results. entailment_score r) / ?n,
        neutral_score = (\<Sum>r\<leftarrow>results. neutral_score r) / ?n,
        contradiction_score = (\<Sum>r\<leftarrow>results. contradiction_score r) / ?n\<rparr>"
      using assms unfolding aggregate_results_def Let_def by (simp only: if_True if_False)
    then show ?thesis
      using contradiction_confidence_Max [OF h] by simp
  qed
  have low: "(\<forall>l. ?votes l \<le> ?votes (nli_label ?agg)) \<and>
      nli_label ?agg =
        (if ?votes NEUTRAL \<le> ?votes ENTAILMENT \<and> ?votes CONTRADICTION \<le> ?votes ENTAILMENT
         then ENTAILMENT
         else if ?votes CONTRADICTION \<le> ?votes NEUTRAL then NEUTRAL
         else CONTRADICTION) \<and>
      confidence ?agg = (\<Sum>r\<leftarrow>results. confidence r) / ?n"
    if h: "\<not> ?high"
  proof -
    from h have "\<not> list_ex (\<lambda>r. nli_label r = CONTRADICTION \<and> confidence r > 0.6) results"
      unfolding list_ex_iff .
    then have "?agg = \<lparr>nli_label = max_key ?votes ENTAILMENT [NEUTRAL, CONTRADICTION],
        confidence = (\<Sum>r\<leftarrow>results. confidence r) / ?n,
        entailment_score = (\<Sum>r\<leftarrow>results. entailment_score r) / ?n,
        neutral_score = (\<Sum>r\<leftarrow>results. neutral_score r) / ?n,
        contradiction_score = (\<Sum>r\<leftarrow>results. contradiction_score r) / ?n\<rparr>"
      using assms unfolding aggregate_results_def Let_def cnt by (simp only: if_True if_False)
    then have l: "nli_label ?agg = max_key ?votes ENTAILMENT [NEUTRAL, CONTRADICTION]"
      and c: "confidence ?agg = (\<Sum>r\<leftarrow>results. confidence r) / ?n"
      by simp_all
    show ?thesis
      unfolding l c using max_key_three_greatest [of ?votes] max_key_three [of ?votes]
      by (simp only: simp_thms)
  qed
  show ?thesis
  proof (cases ?high)
    case True
    show ?thesis
      unfolding Let_def if_P [OF True] using high [OF True] scores by blast
  next
    case False
    show ?thesis
      unfolding Let_def if_not_P [OF False] using low [OF False] scores by blast
  qed
qed

theorem aggregate_results_rule_witness:
  "example_results \<noteq> [] \<and>
   nli_label (aggregate_results example_results) = NEUTRAL \<and>
   confidence (aggregate_results example_results) = 0.5 \<and>
   entailment_score (aggregate_results example_results) = 0.8 / 3"
  using aggregate_results_rule [of example_results]
  by (simp add: Let_def example_results_def)

section \<open>Tier 2: \<^verbatim>\<open>EmbeddingChecker\<close> heuristics (\<^verbatim>\<open>verification/embeddings.py\<close>)\<close>

text \<open>
  The heuristic score is computed in Python floats. What the interpreter contributes is
  kept as a parameter of the model: \<open>rnd\<close> maps a real number to the double that
  represents it (each of \<^verbatim>\<open>+\<close>, \<^verbatim>\<open>*\<close>, \<^verbatim>\<open>/\<close>, \<^verbatim>\<open>math.sqrt\<close>, the division of two ints, the
  conversion of an int and the reading of a decimal literal returns the exact result
  rounded); \<open>fsum\<close> is the built-in \<^verbatim>\<open>sum\<close> on a list of floats (additions from left to
  right up to Python 3.11, compensated summation from 3.12); \<open>flog\<close> is \<^verbatim>\<open>math.log\<close> of the
  C library; \<open>iter_order\<close> is the order in which \<^verbatim>\<open>set(tokens1) | set(tokens2)\<close> is iterated,
  which depends on the hashes of the strings and on the order of insertion. A float is
  modelled by the real number it denotes.
\<close>

record py_floats =
  rnd :: "real \<Rightarrow> real"
  fsum :: "real list \<Rightarrow> real"
  flog :: "real \<Rightarrow> real"
  iter_order :: "string list \<Rightarrow> string list \<Rightarrow> string list"

definition fadd :: "py_floats \<Rightarrow> real \<Rightarrow> real \<Rightarrow> real" where
  "fadd F x y = rnd F (x + y)"

definition fmul :: "py_floats \<Rightarrow> real \<Rightarrow> real \<Rightarrow> real" where
  "fmul F x y = rnd F (x * y)"

definition fdiv :: "py_floats \<Rightarrow> real \<Rightarrow> real \<Rightarrow> real" where
  "fdiv F x y = rnd F (x / y)"

definition fsqrt :: "py_floats \<Rightarrow> real \<Rightarrow> real" where
  "fsqrt F x = rnd F (sqrt x)"

text \<open>\<^verbatim>\<open>float(n)\<close> for an int, and \<^verbatim>\<open>a / b\<close> for two ints.\<close>

definition float_of :: "py_floats \<Rightarrow> nat \<Rightarrow> real" where
  "float_of F n = rnd F (real n)"

definition int_div :: "py_floats \<Rightarrow> nat \<Rightarrow> nat \<Rightarrow> real" where
  "int_div F a b = rnd F (real a / real b)"

text \<open>A \<^verbatim>\<open>SimilarityResult\<close> without its formatted \<^verbatim>\<open>details\<close> string and its
  \<^verbatim>\<open>matched_segments\<close> (always empty in heuristic mode).\<close>

record SimilarityResult =
  sim_label :: string
  sim_score :: real

text \<open>The two thresholds are doubles: 0.75 and 0.5 are read without rounding.\<close>

definition HIGH_THRESHOLD :: real where "HIGH_THRESHOLD = 0.75"
definition MEDIUM_THRESHOLD :: real where "MEDIUM_THRESHOLD = 0.50"

text \<open>\<^verbatim>\<open>_tokenize\<close>: \<^verbatim>\<open>re.findall(r"\b[a-zA-Z]{2,}\b", text.lower())\<close>.\<close>

definition tokenize :: "string \<Rightarrow> string list" where
  "tokenize text = findall_alpha 2 (lower text)"

definition cosine_similarity :: "py_floats \<Rightarrow> real list \<Rightarrow> real list \<Rightarrow> real" where
  "cosine_similarity F vec1 vec2 =
     (let dot_product = fsum F (map (\<lambda>(a, b). fmul F a b) (zip vec1 vec2));
          norm1 = fsqrt F (fsum F (map (\<lambda>a. fmul F a a) vec1));
          norm2 = fsqrt F (fsum F (map (\<lambda>b. fmul F b b) vec2))
      in if norm1 = 0 \<or> norm2 = 0 then 0.0 else fdiv F dot_product (fmul F norm1 norm2))"

text \<open>\<^verbatim>\<open>_tfidf_overlap\<close>. The set \<^verbatim>\<open>all_tokens\<close> is iterated twice without a change in
  between, so both vectors follow one enumeration of it.\<close>

definition tfidf_overlap :: "py_floats \<Rightarrow> string list \<Rightarrow> string list \<Rightarrow> real" where
  "tfidf_overlap F tokens1 tokens2 =
     (if set tokens1 \<union> set tokens2 = {} then 0.0
      else
        let all_tokens = iter_order F tokens1 tokens2;
            tf1 = (\<lambda>t. count_list tokens1 t);
            tf2 = (\<lambda>t. count_list tokens2 t);
            df = (\<lambda>t. (if t \<in> set tokens1 then 1 else 0) + (if t \<in> set tokens2 then 1 else (0::nat)));
            num_docs = (2::nat);
            idf = (\<lambda>t. fadd F (flog F (int_div F (num_docs + 1) (df t + 1))) 1);
            vec1 = map (\<lambda>t. fmul F (float_of F (tf1 t)) (idf t)) all_tokens;
            vec2 = map (\<lambda>t. fmul F (float_of F (tf2 t)) (idf t)) all_tokens
        in cosine_similarity F vec1 vec2)"

text \<open>\<^verbatim>\<open>set(text[i:i+n] for i in range(len(text) - n + 1))\<close>\<close>

definition ngrams :: "nat \<Rightarrow> string \<Rightarrow> string set" where
  "ngrams n s = set (map (\<lambda>i. take n (drop i s)) [0..<length s + 1 - n])"

text \<open>One round of the loop \<^verbatim>\<open>for n in n_values\<close> of \<^verbatim>\<open>_ngram_similarity\<close>, on the running
  \<^verbatim>\<open>total_score\<close>.\<close>

definition ngram_round :: "py_floats \<Rightarrow> string \<Rightarrow> string \<Rightarrow> real \<Rightarrow> nat \<Rightarrow> real" where
  "ngram_round F text1_lower text2_lower total_score n =
     (let ngrams1 = ngrams n text1_lower;
          ngrams2 = ngrams n text2_lower
      in if ngrams1 \<noteq> {} \<and> ngrams2 \<noteq> {}
         then fadd F total_score (int_div F (card (ngrams1 \<inter> ngrams2)) (card (ngrams1 \<union> ngrams2)))
         else total_score)"

definition ngram_similarity :: "py_floats \<Rightarrow> string \<Rightarrow> string \<Rightarrow> nat list \<Rightarrow> real" where
  "ngram_similarity F text1 text2 n_values =
     (let text1_lower = lower text1;
          text2_lower = lower text2;
          total_score = foldl (ngram_round F text1_lower text2_lower) 0.0 n_values
      in if n_values \<noteq> [] then fdiv F total_score (float_of F (length n_values)) else 0.0)"

definition jaccard_similarity :: "py_floats \<Rightarrow> string list \<Rightarrow> string list \<Rightarrow> real" where
  "jaccard_similarity F tokens1 tokens2 =
     (let set1 = set tokens1; set2 = set tokens2
      in if set1 = {} \<and> set2 = {} then 0.0
         else int_div F (card (set1 \<inter> set2)) (card (set1 \<union> set2)))"

text \<open>\<^verbatim>\<open>_compute_heuristic_similarity\<close>; the literals 0.4, 0.35 and 0.25 are read as the
  nearest doubles.\<close>

definition compute_heuristic_similarity :: "py_floats \<Rightarrow> string \<Rightarrow> string \<Rightarrow> SimilarityResult" where
  "compute_heuristic_similarity F text1 text2 =
     (let tokens1 = tokenize text1;
          tokens2 = tokenize text2
      in if tokens1 = [] \<or> tokens2 = [] then \<lparr>sim_label = ''low'', sim_score = 0.0\<rparr>
         else
           let tfidf_score = tfidf_overlap F tokens1 tokens2;
               ngram_score = ngram_similarity F text1 text2 [2, 3];
               jaccard_score = jaccard_similarity F tokens1 tokens2;
               sc = fadd F (fadd F (fmul F (rnd F 0.4) tfidf_score)
                                   (fmul F (rnd F 0.35) ngram_score))
                           (fmul F (rnd F 0.25) jaccard_score)
           in \<lparr>sim_label = (if sc \<ge> HIGH_THRESHOLD then ''high''
                            else if sc \<ge> MEDIUM_THRESHOLD then ''medium'' else ''low''),
               sim_score = sc\<rparr>)"

text \<open>The sum of the squared token counts over the vocabulary of one token list.\<close>

definition squared_counts :: "py_floats \<Rightarrow> string list \<Rightarrow> nat" where
  "squared_counts F tokens =
     (\<Sum>t\<leftarrow>iter_order F tokens tokens. count_list tokens t * count_list tokens t)"

text \<open>
  Facts of IEEE-754 binary64 arithmetic with rounding to nearest, and of the two library
  functions, that the proofs below rely on: rounding leaves a double unchanged; a natural number up to \<open>2^53\<close>, divided by a power of two up to \<open>2^64\<close>, is a
  double; in the range from \<open>2^-64\<close> to \<open>2^64\<close> rounding changes a number by at most the
  fraction \<open>2^-53\<close> of it; \<^verbatim>\<open>math.log(1.0)\<close> is \<^verbatim>\<open>0.0\<close>; the sum of floats that are natural
  numbers with a total up to \<open>2^53\<close> is exact; a set is iterated without repetition.
\<close>

definition double_laws :: "py_floats \<Rightarrow> bool" where
  "double_laws F \<longleftrightarrow>
     (\<forall>x. rnd F (rnd F x) = rnd F x) \<and>
     (\<forall>n k. n \<le> 2 ^ 53 \<and> k \<le> 64 \<longrightarrow> rnd F (real n / 2 ^ k) = real n / 2 ^ k) \<and>
     (\<forall>x. 1 / 2 ^ 64 \<le> x \<and> x \<le> 2 ^ 64 \<longrightarrow> \<bar>rnd F x - x\<bar> \<le> x / 2 ^ 53) \<and>
     flog F 1 = 0 \<and>
     (\<forall>ns. sum_list ns \<le> 2 ^ 53 \<longrightarrow> fsum F (map real ns) = real (sum_list ns)) \<and>
     (\<forall>a b. distinct (iter_order F a b) \<and> set (iter_order F a b) = set a \<union> set b)"

text \<open>
  One arithmetic of this kind, written out: binary64 with rounding to the nearest double,
  ties to the even mantissa. A double is \<open>M * 2^(e - 52)\<close> with an integer mantissa \<open>M\<close>
  from \<open>2^52\<close> up to \<open>2^53\<close> and the exponent \<open>e\<close> of the binade of the number; the bounds
  of the exponent range are left out (no value below comes near them). \<^verbatim>\<open>sum\<close> adds from
  left to right, starting from 0, as CPython does up to version 3.11; \<^verbatim>\<open>math.log\<close> is taken
  as the rounded logarithm; the set is iterated in the order of the last occurrences.
\<close>

definition round_half_even :: "real \<Rightarrow> int" where
  "round_half_even y =
     (let f = \<lfloor>y\<rfloor>
      in if y - of_int f < 1 / 2 then f
         else if 1 / 2 < y - of_int f then f + 1
         else if even f then f else f + 1)"

definition binade :: "real \<Rightarrow> int" where
  "binade x = \<lfloor>log 2 \<bar>x\<bar>\<rfloor>"

definition round_binary64 :: "real \<Rightarrow> real" where
  "round_binary64 x =
     (if x = 0 then 0
      else
        let q = 2 powi (binade x - 52)
        in sgn x * of_int (round_half_even (\<bar>x\<bar> / q)) * q)"

definition binary64_floats :: py_floats where
  "binary64_floats =
     \<lparr>rnd = round_binary64,
      fsum = (\<lambda>xs. foldl (\<lambda>s x. round_binary64 (s + x)) 0 xs),
      flog = (\<lambda>x. round_binary64 (ln x)),
      iter_order = (\<lambda>a b. remdups (a @ b))\<rparr>"

subsection \<open>Rounding\<close>

lemma rnd_idem: "double_laws F \<Longrightarrow> rnd F (rnd F x) = rnd F x"
  by (simp add: double_laws_def)

lemma rnd_dyadic:
  "double_laws F \<Longrightarrow> n \<le> 2 ^ 53 \<Longrightarrow> k \<le> 64 \<Longrightarrow> rnd F (real n / 2 ^ k) = real n / 2 ^ k"
  by (simp add: double_laws_def)

lemma rnd_nat: "double_laws F \<Longrightarrow> n \<le> 2 ^ 53 \<Longrightarrow> rnd F (real n) = real n"
  using rnd_dyadic [of F n 0] by simp

lemma rnd_small:
  assumes "double_laws F"
  shows "rnd F 0 = 0" "rnd F 1 = 1" "rnd F 2 = 2" "rnd F (1 / 2) = 1 / 2" "rnd F (1 / 4) = 1 / 4"
  using rnd_nat [OF assms, of 0] rnd_nat [OF assms, of 1] rnd_nat [OF assms, of 2]
    rnd_dyadic [OF assms, of 1 1] rnd_dyadic [OF assms, of 1 2]
  by simp_all

lemma rnd_rel:
  assumes "double_laws F" and "1 / 2 ^ 64 \<le> x" and "x \<le> 2 ^ 64"
  shows "x * (1 - 1 / 2 ^ 53) \<le> rnd F x" and "rnd F x \<le> x * (1 + 1 / 2 ^ 53)"
proof -
  have rel: "x * (1 - u) \<le> r \<and> r \<le> x * (1 + u)" if "\<bar>r - x\<bar> \<le> x * u" for r u :: real
    using that by (simp add: abs_le_iff algebra_simps)
  from assms have "\<bar>rnd F x - x\<bar> \<le> x / 2 ^ 53"
    unfolding double_laws_def by blast
  then have "\<bar>rnd F x - x\<bar> \<le> x * (1 / 2 ^ 53)"
    by simp
  from rel [OF this]
  show "x * (1 - 1 / 2 ^ 53) \<le> rnd F x" and "rnd F x \<le> x * (1 + 1 / 2 ^ 53)"
    by blast+
qed

lemma rnd_bounds_wide:
  assumes "double_laws F" and "1 / 2 ^ 64 \<le> lo" and "lo \<le> x" and "x \<le> hi" and "hi \<le> 2 ^ 64"
  shows "lo * (1 - 1 / 2 ^ 53) \<le> rnd F x" and "rnd F x \<le> hi * (1 + 1 / 2 ^ 53)"
proof -
  from assms have "1 / 2 ^ 64 \<le> x" "x \<le> 2 ^ 64"
    by linarith+
  note b = rnd_rel [OF assms(1) this]
  have "lo * (1 - 1 / 2 ^ 53) \<le> x * (1 - 1 / 2 ^ 53)"
    using assms(3) by (intro mult_right_mono) simp_all
  with b(1) show "lo * (1 - 1 / 2 ^ 53) \<le> rnd F x" by simp
  have "x * (1 + 1 / 2 ^ 53) \<le> hi * (1 + 1 / 2 ^ 53)"
    using assms(4) by (intro mult_right_mono) simp_all
  with b(2) show "rnd F x \<le> hi * (1 + 1 / 2 ^ 53)" by simp
qed

lemma rnd_bounds:
  assumes "double_laws F" and "1 / 4 \<le> lo" and "lo \<le> x" and "x \<le> hi" and "hi \<le> 2 ^ 53"
  shows "lo * (1 - 1 / 2 ^ 53) \<le> rnd F x" and "rnd F x \<le> hi * (1 + 1 / 2 ^ 53)"
proof -
  have "(1 / 2 ^ 64 :: real) \<le> 1 / 4" "(2 ^ 53 :: real) \<le> 2 ^ 64"
    by simp_all
  with assms(2,5) have "1 / 2 ^ 64 \<le> lo" "hi \<le> 2 ^ 64"
    by linarith+
  from rnd_bounds_wide [OF assms(1) this(1) assms(3,4) this(2)]
  show "lo * (1 - 1 / 2 ^ 53) \<le> rnd F x" and "rnd F x \<le> hi * (1 + 1 / 2 ^ 53)"
    by blast+
qed

subsection \<open>The n-gram and Jaccard components\<close>

lemma int_div_same:
  assumes "double_laws F" and "c \<noteq> 0"
  shows "int_div F c c = 1"
  using assms rnd_small(2) [OF assms(1)] by (simp add: int_div_def)

lemma ngrams_nonempty: "n \<le> length s \<Longrightarrow> ngrams n s \<noteq> {}"
  unfolding ngrams_def by simp

lemma finite_ngrams: "finite (ngrams n s)"
  unfolding ngrams_def by simp

lemma ngram_round_same:
  assumes "double_laws F" and "n \<le> length s"
  shows "ngram_round F s s acc n = rnd F (acc + 1)"
proof -
  have "ngrams n s \<noteq> {}"
    using assms(2) by (rule ngrams_nonempty)
  moreover from this have "card (ngrams n s) \<noteq> 0"
    using finite_ngrams by (simp add: card_eq_0_iff)
  ultimately show ?thesis
    using int_div_same [OF assms(1)] by (simp add: ngram_round_def fadd_def)
qed

lemma ngram_similarity_refl:
  assumes "double_laws F" and "3 \<le> length t"
  shows "ngram_similarity F t t [2, 3] = 1"
proof -
  have l: "length (lower t) = length t"
    by (simp add: lower_def)
  have r2: "ngram_round F (lower t) (lower t) acc 2 = rnd F (acc + 1)"
    and r3: "ngram_round F (lower t) (lower t) acc 3 = rnd F (acc + 1)" for acc
    using assms(2) l by (simp_all add: ngram_round_same [OF assms(1)])
  show ?thesis
    unfolding ngram_similarity_def Let_def
    using rnd_small [OF assms(1)] by (simp add: r2 r3 fdiv_def float_of_def)
qed

lemma jaccard_similarity_refl:
  assumes "double_laws F" and "tokens \<noteq> []"
  shows "jaccard_similarity F tokens tokens = 1"
proof -
  have "card (set tokens) \<noteq> 0"
    using assms(2) by (simp add: card_eq_0_iff)
  from int_div_same [OF assms(1) this] show ?thesis
    unfolding jaccard_similarity_def Let_def
    using assms(2) by simp
qed

lemma ngram_round_sym: "ngram_round F a b acc n = ngram_round F b a acc n"
  unfolding ngram_round_def Let_def by (simp add: Int_commute Un_commute conj_commute)

lemma ngram_similarity_sym: "ngram_similarity F a b ns = ngram_similarity F b a ns"
proof -
  have "ngram_round F (lower a) (lower b) = ngram_round F (lower b) (lower a)"
    by (intro ext) (rule ngram_round_sym)
  then show ?thesis
    unfolding ngram_similarity_def Let_def by simp
qed

lemma jaccard_similarity_sym: "jaccard_similarity F a b = jaccard_similarity F b a"
  unfolding jaccard_similarity_def Let_def
  by (simp add: Int_commute Un_commute conj_commute)

subsection \<open>The TF-IDF component\<close>

text \<open>When both calls enumerate the vocabulary in the same order, the two vectors change
  places, and each product and the set of terms of each sum stay the same.\<close>

lemma zip_swap_products:
  "map (\<lambda>(a, b). fmul F a b) (zip xs ys) = map (\<lambda>(a, b). fmul F a b) (zip ys xs)"
proof (induction xs arbitrary: ys)
  case Nil
  then show ?case by simp
next
  case (Cons x xs)
  then show ?case
    by (cases ys) (simp_all add: fmul_def mult.commute)
qed

lemma cosine_similarity_sym: "cosine_similarity F v w = cosine_similarity F w v"
proof -
  have m: "fmul F x y = fmul F y x" for x y
    by (simp add: fmul_def mult.commute)
  show ?thesis
    unfolding cosine_similarity_def Let_def zip_swap_products [of F v w]
      m [of "fsqrt F (fsum F (map (\<lambda>a. fmul F a a) v))"]
    by (simp add: disj_commute)
qed

lemma tfidf_overlap_sym:
  assumes "iter_order F a b = iter_order F b a"
  shows "tfidf_overlap F a b = tfidf_overlap F b a"
proof -
  have df: "(if t \<in> set a then 1 else 0) + (if t \<in> set b then 1 else (0::nat)) =
            (if t \<in> set b then 1 else 0) + (if t \<in> set a then 1 else 0)" for t
    by simp
  show ?thesis
    unfolding tfidf_overlap_def Let_def assms
    by (subst cosine_similarity_sym) (simp add: Un_commute df)
qed

lemma compute_heuristic_similarity_sym:
  assumes "iter_order F (tokenize a) (tokenize b) = iter_order F (tokenize b) (tokenize a)"
  shows "compute_heuristic_similarity F a b = compute_heuristic_similarity F b a"
  unfolding compute_heuristic_similarity_def Let_def
  using tfidf_overlap_sym [OF assms]
    ngram_similarity_sym [of F a b] jaccard_similarity_sym [of F "tokenize a" "tokenize b"]
  by (simp add: disj_commute)

text \<open>The component for a token list and itself. Every IDF weight is 1, the entries of the
  vector are the token counts, and the sum of their squares is a natural number \<open>S\<close> that
  is computed without rounding; what is rounded is the square root, its square and the
  quotient.\<close>

lemma sum_squares_le:
  "(\<Sum>x\<leftarrow>xs. f x * f x) \<le> (\<Sum>x\<leftarrow>xs. f x) * (\<Sum>x\<leftarrow>xs. (f x :: nat))"
proof (induction xs)
  case Nil
  then show ?case by simp
next
  case (Cons x xs)
  then show ?case by (simp add: algebra_simps)
qed

lemma zip_same_products:
  "map (\<lambda>(a, b). fmul F a b) (zip xs xs) = map (\<lambda>a. fmul F a a) xs"
  by (induction xs) simp_all

lemma cosine_bounds:
  assumes L: "double_laws F" and S1: "1 \<le> S" and S2: "S \<le> 2 ^ 52"
  defines "r \<equiv> rnd F (sqrt S)"
  shows "r \<noteq> 0" and "1 - 5 / 2 ^ 53 \<le> rnd F (S / rnd F (r * r))"
    and "rnd F (S / rnd F (r * r)) \<le> 1 + 6 / 2 ^ 53"
proof -
  define u :: real where "u = 1 / 2 ^ 53"
  have u: "0 < u" "u < 1 / 1000"
    by (simp_all add: u_def)
  note rb = rnd_bounds [OF L, folded u_def]
  have q1: "1 \<le> sqrt S"
    using S1 by simp
  have "sqrt S \<le> sqrt (2 ^ 52)"
    using S2 by (rule real_sqrt_le_mono)
  also have "sqrt (2 ^ 52) = (2 ^ 26 :: real)"
    by (rule real_sqrt_unique) simp_all
  finally have q2: "sqrt S \<le> 2 ^ 26" .
  have "(2 ^ 26 :: real) \<le> 2 ^ 53"
    by simp
  with q1 q2 have q3: "1 / 4 \<le> sqrt S" and q4: "sqrt S \<le> 2 ^ 53"
    by linarith+
  have r1: "sqrt S * (1 - u) \<le> r" and r2: "r \<le> sqrt S * (1 + u)"
    unfolding r_def using rb [OF q3 order_refl order_refl q4] by blast+
  have r0: "0 < r"
  proof -
    have "0 < sqrt S * (1 - u)"
      using q1 u by simp
    with r1 show ?thesis by simp
  qed
  then show "r \<noteq> 0" by simp
  have ss: "sqrt S * sqrt S = S"
    using S1 by simp
  have nn: "0 \<le> sqrt S * (1 - u)" "0 \<le> sqrt S * (1 + u)" "0 \<le> r"
    using q1 u r0 by simp_all
  have "(sqrt S * (1 - u)) * (sqrt S * (1 - u)) \<le> r * r"
    by (rule mult_mono [OF r1 r1 nn(3) nn(1)])
  then have p1: "S * (1 - u)\<^sup>2 \<le> r * r"
    using ss by (simp add: power2_eq_square algebra_simps)
  have "r * r \<le> (sqrt S * (1 + u)) * (sqrt S * (1 + u))"
    by (rule mult_mono [OF r2 r2 nn(2) nn(3)])
  then have p2: "r * r \<le> S * (1 + u)\<^sup>2"
    using ss by (simp add: power2_eq_square algebra_simps)
  have lo1: "1 / 4 \<le> S * (1 - u)\<^sup>2"
  proof -
    have "1 / 4 \<le> 1 * (1 - u)\<^sup>2"
      by (simp add: u_def power2_eq_square)
    also have "\<dots> \<le> S * (1 - u)\<^sup>2"
      using S1 by (intro mult_right_mono) simp_all
    finally show ?thesis .
  qed
  have hi1: "S * (1 + u)\<^sup>2 \<le> 2 ^ 53"
  proof -
    have "S * (1 + u)\<^sup>2 \<le> 2 ^ 52 * (1 + u)\<^sup>2"
      using S2 by (intro mult_right_mono) simp_all
    also have "\<dots> \<le> 2 ^ 53"
      by (simp add: u_def power2_eq_square)
    finally show ?thesis .
  qed
  have "S * (1 - u)\<^sup>2 * (1 - u) \<le> rnd F (r * r)" "rnd F (r * r) \<le> S * (1 + u)\<^sup>2 * (1 + u)"
    using rb [OF lo1 p1 p2 hi1] by simp_all
  then have p3: "S * (1 - u) ^ 3 \<le> rnd F (r * r)" and p4: "rnd F (r * r) \<le> S * (1 + u) ^ 3"
    by (simp_all add: power3_eq_cube power2_eq_square algebra_simps)
  have pos3: "0 < S * (1 - u) ^ 3" "0 < S * (1 + u) ^ 3"
    using S1 u by simp_all
  have p0: "0 < rnd F (r * r)"
    using p3 pos3(1) by simp
  have "S / (S * (1 + u) ^ 3) \<le> S / rnd F (r * r)"
    using p4 p0 S1 by (intro divide_left_mono) simp_all
  then have c1: "1 / (1 + u) ^ 3 \<le> S / rnd F (r * r)"
    using S1 by simp
  have "S / rnd F (r * r) \<le> S / (S * (1 - u) ^ 3)"
    using p3 pos3(1) S1 by (intro divide_left_mono) simp_all
  then have c2: "S / rnd F (r * r) \<le> 1 / (1 - u) ^ 3"
    using S1 by simp
  have lo2: "1 / 4 \<le> 1 / (1 + u) ^ 3" and hi2: "1 / (1 - u) ^ 3 \<le> 2 ^ 53"
    by (simp_all add: u_def field_simps)
  from rb [OF lo2 c1 c2 hi2]
  have "1 / (1 + u) ^ 3 * (1 - u) \<le> rnd F (S / rnd F (r * r))"
    "rnd F (S / rnd F (r * r)) \<le> 1 / (1 - u) ^ 3 * (1 + u)"
    by simp_all
  moreover have "1 - 5 / 2 ^ 53 \<le> 1 / (1 + u) ^ 3 * (1 - u)"
    "1 / (1 - u) ^ 3 * (1 + u) \<le> 1 + 6 / 2 ^ 53"
    by (simp_all add: u_def field_simps)
  ultimately show "1 - 5 / 2 ^ 53 \<le> rnd F (S / rnd F (r * r))"
    and "rnd F (S / rnd F (r * r)) \<le> 1 + 6 / 2 ^ 53"
    by linarith+
qed

lemma tfidf_overlap_refl_eq:
  assumes L: "double_laws F" and ne: "tokens \<noteq> []" and len: "length tokens \<le> 2 ^ 26"
  defines "S \<equiv> real (squared_counts F tokens)"
  shows "1 \<le> S" and "S \<le> 2 ^ 52"
    and "tfidf_overlap F tokens tokens = rnd F (S / rnd F (rnd F (sqrt S) * rnd F (sqrt S)))"
proof -
  let ?all = "iter_order F tokens tokens"
  let ?c = "count_list tokens"
  let ?sq = "\<lambda>t. ?c t * ?c t"
  define N where "N = squared_counts F tokens"
  have N: "N = sum_list (map ?sq ?all)" and S: "S = real N"
    by (simp_all add: N_def S_def squared_counts_def)
  from L have d: "distinct ?all" and v: "set ?all = set tokens"
    by (simp_all add: double_laws_def)
  have c26: "?c t \<le> 2 ^ 26" for t
    using count_le_length [of tokens t] len by simp
  have sq52: "?sq t \<le> 2 ^ 52" for t
  proof -
    have "?c t * ?c t \<le> 2 ^ 26 * 2 ^ 26"
      by (intro mult_mono c26) simp_all
    then show ?thesis by simp
  qed
  have c53: "?c t \<le> 2 ^ 53" and sq53: "?sq t \<le> 2 ^ 53" for t
    using c26 [of t] sq52 [of t] by simp_all
  text \<open>The weights and the vector.\<close>
  have idf: "fadd F (flog F (int_div F (2 + 1)
                ((if t \<in> set tokens then 1 else 0) + (if t \<in> set tokens then 1 else 0) + 1))) 1 = 1"
    if "t \<in> set tokens" for t
  proof -
    have "int_div F 3 3 = 1"
      by (rule int_div_same [OF L]) simp
    moreover have "flog F 1 = 0"
      using L by (simp add: double_laws_def)
    moreover have "((if t \<in> set tokens then 1 else 0) + (if t \<in> set tokens then 1 else 0) + 1 :: nat) = 3"
      "(2 + 1 :: nat) = 3"
      using that by simp_all
    ultimately show ?thesis
      using rnd_small(2) [OF L] by (simp only: fadd_def add_0)
  qed
  have entry: "fmul F (float_of F (?c t)) 1 = real (?c t)" for t
    using rnd_nat [OF L c53 [of t]] by (simp add: fmul_def float_of_def)
  have vec: "map (\<lambda>t. fmul F (float_of F (?c t))
                (fadd F (flog F (int_div F (2 + 1)
                   ((if t \<in> set tokens then 1 else 0) + (if t \<in> set tokens then 1 else 0) + 1))) 1))
              ?all = map (\<lambda>t. real (?c t)) ?all"
  proof (rule map_cong [OF refl])
    fix t
    assume "t \<in> set ?all"
    then have t: "t \<in> set tokens"
      using v by simp
    show "fmul F (float_of F (?c t))
                (fadd F (flog F (int_div F (2 + 1)
                   ((if t \<in> set tokens then 1 else 0) + (if t \<in> set tokens then 1 else 0) + 1))) 1) =
          real (?c t)"
      unfolding idf [OF t] by (rule entry)
  qed
  have squares: "map (\<lambda>a. fmul F a a) (map (\<lambda>t. real (?c t)) ?all) = map real (map ?sq ?all)"
  proof -
    have "fmul F (real (?c t)) (real (?c t)) = real (?sq t)" for t
      using rnd_nat [OF L sq53 [of t]] by (simp add: fmul_def)
    then show ?thesis by simp
  qed
  text \<open>The sum of the squares.\<close>
  have "sum_list (map ?c ?all) = sum ?c (set ?all)"
    by (rule sum_list_distinct_conv_sum_set [OF d])
  also have "\<dots> = length tokens"
    unfolding v by (rule sum_count_set) simp_all
  finally have total: "sum_list (map ?c ?all) = length tokens" .
  have "N \<le> length tokens * length tokens"
    unfolding N using sum_squares_le [of ?c ?all] total by simp
  also have "\<dots> \<le> 2 ^ 26 * 2 ^ 26"
    by (intro mult_mono len) simp_all
  finally have N52: "N \<le> 2 ^ 52"
    by simp
  then have N53: "N \<le> 2 ^ 53"
    by simp
  obtain t where t: "t \<in> set tokens"
    using ne by (cases tokens) auto
  then have "?c t \<noteq> 0"
    by (simp add: count_list_0_iff)
  then have "1 \<le> ?sq t"
    by (cases "?c t") simp_all
  moreover have "?sq t \<in> set (map ?sq ?all)"
    using t v by auto
  then have "?sq t \<le> N"
    unfolding N by (intro member_le_sum_list) simp_all
  ultimately have N1: "1 \<le> N"
    by (rule order_trans)
  have fs: "fsum F (map real (map ?sq ?all)) = real N"
    using L N53 unfolding N double_laws_def by blast
  text \<open>The cosine.\<close>
  show R1: "1 \<le> S" and R2: "S \<le> 2 ^ 52"
  proof -
    show "1 \<le> S" unfolding S using N1 by simp
    have "real N \<le> real (2 ^ 52)"
      using N52 by (simp only: of_nat_le_iff)
    then show "S \<le> 2 ^ 52" unfolding S by simp
  qed
  note cb = cosine_bounds [OF L R1 R2]
  show "tfidf_overlap F tokens tokens = rnd F (S / rnd F (rnd F (sqrt S) * rnd F (sqrt S)))"
    unfolding tfidf_overlap_def Let_def cosine_similarity_def vec zip_same_products squares fs S
    using ne cb(1) [unfolded S] by (simp add: fsqrt_def fdiv_def fmul_def)
qed

lemma tfidf_overlap_refl:
  assumes L: "double_laws F" and ne: "tokens \<noteq> []" and len: "length tokens \<le> 2 ^ 26"
  shows "1 - 5 / 2 ^ 53 \<le> tfidf_overlap F tokens tokens"
    and "tfidf_overlap F tokens tokens \<le> 1 + 6 / 2 ^ 53"
proof -
  note e = tfidf_overlap_refl_eq [OF L ne len]
  note cb = cosine_bounds [OF L e(1,2)]
  from cb(2,3) show "1 - 5 / 2 ^ 53 \<le> tfidf_overlap F tokens tokens"
    and "tfidf_overlap F tokens tokens \<le> 1 + 6 / 2 ^ 53"
    unfolding e(3) by simp_all
qed

subsection \<open>The weighted combination\<close>

lemma weighted_sum_bounds:
  assumes L: "double_laws F" and x1: "1 - 5 / 2 ^ 53 \<le> x" and x2: "x \<le> 1 + 6 / 2 ^ 53"
  defines "sc \<equiv> fadd F (fadd F (fmul F (rnd F 0.4) x) (fmul F (rnd F 0.35) 1))
                        (fmul F (rnd F 0.25) 1)"
  shows "1 - 1 / 2 ^ 50 \<le> sc" and "sc \<le> 1 + 1 / 2 ^ 50"
proof -
  define u :: real where "u = 1 / 2 ^ 53"
  note rb = rnd_bounds [OF L, folded u_def]
  have c4: "0.4 * (1 - u) \<le> rnd F 0.4" "rnd F 0.4 \<le> 0.4 * (1 + u)"
    using rb [of "0.4" "0.4" "0.4"] by simp_all
  have c35: "0.35 * (1 - u) \<le> rnd F 0.35" "rnd F 0.35 \<le> 0.35 * (1 + u)"
    using rb [of "0.35" "0.35" "0.35"] by simp_all
  have "(0.25 :: real) = 1 / 4"
    by simp
  then have c25: "rnd F 0.25 = 0.25"
    using rnd_small(5) [OF L] by (simp only:)
  have t35: "fmul F (rnd F 0.35) 1 = rnd F 0.35"
    using rnd_idem [OF L] by (simp add: fmul_def)
  have t25: "fmul F (rnd F 0.25) 1 = 0.25"
    by (simp only: fmul_def mult_1_right c25)
  text \<open>The first product.\<close>
  have xpos: "0 \<le> 1 - 5 * u" "0 \<le> x"
    using x1 by (simp_all add: u_def)
  have m1: "0.4 * (1 - u) * (1 - 5 * u) \<le> rnd F 0.4 * x"
    using c4(1) x1 by (intro mult_mono) (simp_all add: u_def)
  have m2: "rnd F 0.4 * x \<le> 0.4 * (1 + u) * (1 + 6 * u)"
    using c4(2) x2 xpos(2) by (intro mult_mono) (simp_all add: u_def)
  have "1 / 4 \<le> 0.4 * (1 - u) * (1 - 5 * u)" "0.4 * (1 + u) * (1 + 6 * u) \<le> 2 ^ 53"
    by (simp_all add: u_def)
  from rb [OF this(1) m1 m2 this(2)]
  have a: "0.4 * (1 - u) * (1 - 5 * u) * (1 - u) \<le> fmul F (rnd F 0.4) x"
    "fmul F (rnd F 0.4) x \<le> 0.4 * (1 + u) * (1 + 6 * u) * (1 + u)"
    by (simp_all add: fmul_def)
  text \<open>The first sum.\<close>
  have s1: "0.4 * (1 - u) * (1 - 5 * u) * (1 - u) + 0.35 * (1 - u) \<le>
            fmul F (rnd F 0.4) x + rnd F 0.35"
    and s2: "fmul F (rnd F 0.4) x + rnd F 0.35 \<le>
            0.4 * (1 + u) * (1 + 6 * u) * (1 + u) + 0.35 * (1 + u)"
    using a c35 by linarith+
  have "1 / 4 \<le> 0.4 * (1 - u) * (1 - 5 * u) * (1 - u) + 0.35 * (1 - u)"
    "0.4 * (1 + u) * (1 + 6 * u) * (1 + u) + 0.35 * (1 + u) \<le> 2 ^ 53"
    by (simp_all add: u_def)
  from rb [OF this(1) s1 s2 this(2)]
  have b: "(0.4 * (1 - u) * (1 - 5 * u) * (1 - u) + 0.35 * (1 - u)) * (1 - u) \<le>
           fadd F (fmul F (rnd F 0.4) x) (rnd F 0.35)"
    "fadd F (fmul F (rnd F 0.4) x) (rnd F 0.35) \<le>
           (0.4 * (1 + u) * (1 + 6 * u) * (1 + u) + 0.35 * (1 + u)) * (1 + u)"
    by (simp_all add: fadd_def)
  text \<open>The second sum.\<close>
  have s3: "(0.4 * (1 - u) * (1 - 5 * u) * (1 - u) + 0.35 * (1 - u)) * (1 - u) + 0.25 \<le>
            fadd F (fmul F (rnd F 0.4) x) (rnd F 0.35) + 0.25"
    and s4: "fadd F (fmul F (rnd F 0.4) x) (rnd F 0.35) + 0.25 \<le>
            (0.4 * (1 + u) * (1 + 6 * u) * (1 + u) + 0.35 * (1 + u)) * (1 + u) + 0.25"
    using b by linarith+
  have "1 / 4 \<le> (0.4 * (1 - u) * (1 - 5 * u) * (1 - u) + 0.35 * (1 - u)) * (1 - u) + 0.25"
    "(0.4 * (1 + u) * (1 + 6 * u) * (1 + u) + 0.35 * (1 + u)) * (1 + u) + 0.25 \<le> 2 ^ 53"
    by (simp_all add: u_def)
  from rb [OF this(1) s3 s4 this(2)]
  have c: "((0.4 * (1 - u) * (1 - 5 * u) * (1 - u) + 0.35 * (1 - u)) * (1 - u) + 0.25) * (1 - u) \<le> sc"
    "sc \<le> ((0.4 * (1 + u) * (1 + 6 * u) * (1 + u) + 0.35 * (1 + u)) * (1 + u) + 0.25) * (1 + u)"
    unfolding sc_def t35 t25 by (simp_all add: fadd_def)
  have "1 - 1 / 2 ^ 50 \<le>
      ((0.4 * (1 - u) * (1 - 5 * u) * (1 - u) + 0.35 * (1 - u)) * (1 - u) + 0.25) * (1 - u)"
    "((0.4 * (1 + u) * (1 + 6 * u) * (1 + u) + 0.35 * (1 + u)) * (1 + u) + 0.25) * (1 + u) \<le>
      1 + 1 / 2 ^ 50"
    by (simp_all add: u_def)
  with c show "1 - 1 / 2 ^ 50 \<le> sc" and "sc \<le> 1 + 1 / 2 ^ 50"
    by linarith+
qed

subsection \<open>A two-letter text\<close>

lemma tokenize_ab: "tokenize ''ab'' = [''ab'']"
  by code_simp

lemma lower_ab: "lower ''ab'' = ''ab''"
  by code_simp

lemma tokenize_Abc_de: "tokenize ''Abc de'' = [''abc'', ''de'']"
  by code_simp

lemma tokenize_de: "tokenize ''de'' = [''de'']"
  by code_simp

lemma ngrams_ab: "ngrams 2 ''ab'' = {''ab''}" "ngrams 3 ''ab'' = {}"
  by (simp_all add: ngrams_def)

lemma ngram_similarity_ab:
  assumes "double_laws F"
  shows "ngram_similarity F ''ab'' ''ab'' [2, 3] = 1 / 2"
  unfolding ngram_similarity_def Let_def lower_ab
  using rnd_small [OF assms]
  by (simp add: ngram_round_def ngrams_ab fadd_def fdiv_def float_of_def int_div_def)

text \<open>The text \<^verbatim>\<open>ab\<close> has a token and one 2-gram, but no 3-gram: the n-gram component is
  0.5, and the score of the text with itself stays near 0.4 + 0.35 * 0.5 + 0.25 = 0.825
  under every rounding that obeys the laws.\<close>

lemma heuristic_similarity_two_letters_rounded:
  assumes L: "double_laws F"
  shows "0.82 \<le> sim_score (compute_heuristic_similarity F ''ab'' ''ab'')"
    and "sim_score (compute_heuristic_similarity F ''ab'' ''ab'') \<le> 0.83"
proof -
  define u :: real where "u = 1 / 2 ^ 53"
  define x where "x = tfidf_overlap F [''ab''] [''ab'']"
  note rb = rnd_bounds_wide [OF L, folded u_def]
  have x1: "1 - 5 * u \<le> x" and x2: "x \<le> 1 + 6 * u"
    unfolding x_def u_def using tfidf_overlap_refl [OF L, of "[''ab'']"] by simp_all
  have n: "ngram_similarity F ''ab'' ''ab'' [2, 3] = 1 / 2"
    by (rule ngram_similarity_ab [OF L])
  have j: "jaccard_similarity F [''ab''] [''ab''] = 1"
    by (rule jaccard_similarity_refl [OF L]) simp
  have sc: "sim_score (compute_heuristic_similarity F ''ab'' ''ab'') =
      fadd F (fadd F (fmul F (rnd F 0.4) x) (fmul F (rnd F 0.35) (1 / 2))) (fmul F (rnd F 0.25) 1)"
    unfolding compute_heuristic_similarity_def Let_def tokenize_ab n j x_def by simp
  have c4: "0.4 * (1 - u) \<le> rnd F 0.4" "rnd F 0.4 \<le> 0.4 * (1 + u)"
    using rb [of "0.4" "0.4" "0.4"] by simp_all
  have c35: "0.35 * (1 - u) \<le> rnd F 0.35" "rnd F 0.35 \<le> 0.35 * (1 + u)"
    using rb [of "0.35" "0.35" "0.35"] by simp_all
  have "(0.25 :: real) = 1 / 4"
    by simp
  then have c25: "rnd F 0.25 = 0.25"
    using rnd_small(5) [OF L] by (simp only:)
  have t25: "fmul F (rnd F 0.25) 1 = 0.25"
    by (simp only: fmul_def mult_1_right c25)
  have xpos: "0 \<le> x"
    using x1 by (simp add: u_def)
  have m1: "0.4 * (1 - u) * (1 - 5 * u) \<le> rnd F 0.4 * x"
    using c4(1) x1 by (intro mult_mono) (simp_all add: u_def)
  have m2: "rnd F 0.4 * x \<le> 0.4 * (1 + u) * (1 + 6 * u)"
    using c4(2) x2 xpos by (intro mult_mono) (simp_all add: u_def)
  have "1 / 2 ^ 64 \<le> 0.4 * (1 - u) * (1 - 5 * u)" "0.4 * (1 + u) * (1 + 6 * u) \<le> 2 ^ 64"
    by (simp_all add: u_def)
  from rb [OF this(1) m1 m2 this(2)]
  have a: "0.4 * (1 - u) * (1 - 5 * u) * (1 - u) \<le> fmul F (rnd F 0.4) x"
    "fmul F (rnd F 0.4) x \<le> 0.4 * (1 + u) * (1 + 6 * u) * (1 + u)"
    by (simp_all add: fmul_def)
  have h1: "0.35 * (1 - u) * (1 / 2) \<le> rnd F 0.35 * (1 / 2)"
    and h2: "rnd F 0.35 * (1 / 2) \<le> 0.35 * (1 + u) * (1 / 2)"
    using c35 by simp_all
  have "1 / 2 ^ 64 \<le> 0.35 * (1 - u) * (1 / 2)" "0.35 * (1 + u) * (1 / 2) \<le> 2 ^ 64"
    by (simp_all add: u_def)
  from rb [OF this(1) h1 h2 this(2)]
  have g: "0.35 * (1 - u) * (1 / 2) * (1 - u) \<le> fmul F (rnd F 0.35) (1 / 2)"
    "fmul F (rnd F 0.35) (1 / 2) \<le> 0.35 * (1 + u) * (1 / 2) * (1 + u)"
    by (simp_all add: fmul_def)
  have s1: "0.4 * (1 - u) * (1 - 5 * u) * (1 - u) + 0.35 * (1 - u) * (1 / 2) * (1 - u) \<le>
            fmul F (rnd F 0.4) x + fmul F (rnd F 0.35) (1 / 2)"
    and s2: "fmul F (rnd F 0.4) x + fmul F (rnd F 0.35) (1 / 2) \<le>
            0.4 * (1 + u) * (1 + 6 * u) * (1 + u) + 0.35 * (1 + u) * (1 / 2) * (1 + u)"
    using a g by linarith+
  have "1 / 2 ^ 64 \<le> 0.4 * (1 - u) * (1 - 5 * u) * (1 - u) + 0.35 * (1 - u) * (1 / 2) * (1 - u)"
    "0.4 * (1 + u) * (1 + 6 * u) * (1 + u) + 0.35 * (1 + u) * (1 / 2) * (1 + u) \<le> 2 ^ 64"
    by (simp_all add: u_def)
  from rb [OF this(1) s1 s2 this(2)]
  have b: "(0.4 * (1 - u) * (1 - 5 * u) * (1 - u) + 0.35 * (1 - u) * (1 / 2) * (1 - u)) * (1 - u) \<le>
           fadd F (fmul F (rnd F 0.4) x) (fmul F (rnd F 0.35) (1 / 2))"
    "fadd F (fmul F (rnd F 0.4) x) (fmul F (rnd F 0.35) (1 / 2)) \<le>
           (0.4 * (1 + u) * (1 + 6 * u) * (1 + u) + 0.35 * (1 + u) * (1 / 2) * (1 + u)) * (1 + u)"
    by (simp_all add: fadd_def)
  have s3: "(0.4 * (1 - u) * (1 - 5 * u) * (1 - u) + 0.35 * (1 - u) * (1 / 2) * (1 - u)) * (1 - u) + 0.25 \<le>
            fadd F (fmul F (rnd F 0.4) x) (fmul F (rnd F 0.35) (1 / 2)) + 0.25"
    and s4: "fadd F (fmul F (rnd F 0.4) x) (fmul F (rnd F 0.35) (1 / 2)) + 0.25 \<le>
            (0.4 * (1 + u) * (1 + 6 * u) * (1 + u) + 0.35 * (1 + u) * (1 / 2) * (1 + u)) * (1 + u) + 0.25"
    using b by linarith+
  have "1 / 2 ^ 64 \<le>
      (0.4 * (1 - u) * (1 - 5 * u) * (1 - u) + 0.35 * (1 - u) * (1 / 2) * (1 - u)) * (1 - u) + 0.25"
    "(0.4 * (1 + u) * (1 + 6 * u) * (1 + u) + 0.35 * (1 + u) * (1 / 2) * (1 + u)) * (1 + u) + 0.25 \<le>
      2 ^ 64"
    by (simp_all add: u_def)
  from rb [OF this(1) s3 s4 this(2)]
  have c: "((0.4 * (1 - u) * (1 - 5 * u) * (1 - u) + 0.35 * (1 - u) * (1 / 2) * (1 - u)) * (1 - u) + 0.25) *
             (1 - u) \<le> sim_score (compute_heuristic_similarity F ''ab'' ''ab'')"
    "sim_score (compute_heuristic_similarity F ''ab'' ''ab'') \<le>
       ((0.4 * (1 + u) * (1 + 6 * u) * (1 + u) + 0.35 * (1 + u) * (1 / 2) * (1 + u)) * (1 + u) + 0.25) *
         (1 + u)"
    unfolding sc t25 by (simp_all add: fadd_def)
  have "0.82 \<le>
      ((0.4 * (1 - u) * (1 - 5 * u) * (1 - u) + 0.35 * (1 - u) * (1 / 2) * (1 - u)) * (1 - u) + 0.25) *
        (1 - u)"
    "((0.4 * (1 + u) * (1 + 6 * u) * (1 + u) + 0.35 * (1 + u) * (1 / 2) * (1 + u)) * (1 + u) + 0.25) *
        (1 + u) \<le> 0.83"
    by (simp_all add: u_def)
  with c show "0.82 \<le> sim_score (compute_heuristic_similarity F ''ab'' ''ab'')"
    and "sim_score (compute_heuristic_similarity F ''ab'' ''ab'') \<le> 0.83"
    by linarith+
qed

subsection \<open>Binary64 arithmetic\<close>

lemma round_half_even_int [simp]: "round_half_even (of_int m) = m"
  by (simp add: round_half_even_def)

lemma round_half_even_near: "\<bar>of_int (round_half_even y) - y\<bar> \<le> 1 / 2"
proof -
  have "of_int \<lfloor>y\<rfloor> \<le> y" "y < of_int \<lfloor>y\<rfloor> + 1"
    by linarith+
  then show ?thesis
    unfolding round_half_even_def Let_def abs_le_iff by (auto; linarith)
qed

lemma round_half_even_unique:
  assumes "\<bar>y - of_int m\<bar> < 1 / 2"
  shows "round_half_even y = m"
proof -
  from assms have b: "of_int m - 1 / 2 < y" "y < of_int m + 1 / 2"
    unfolding abs_less_iff by linarith+
  show ?thesis
  proof (cases "of_int m \<le> y")
    case True
    with b have "\<lfloor>y\<rfloor> = m"
      by (intro floor_unique) linarith+
    with b show ?thesis
      by (simp add: round_half_even_def Let_def)
  next
    case False
    have c: "real_of_int (m - 1) = real_of_int m - 1"
      by simp
    have "real_of_int (m - 1) \<le> y" "y < real_of_int (m - 1) + 1"
      unfolding c using b False by linarith+
    then have f: "\<lfloor>y\<rfloor> = m - 1"
      by (rule floor_unique)
    have "1 / 2 < y - of_int (m - 1)"
      using b by simp
    with f show ?thesis
      by (simp add: round_half_even_def Let_def)
  qed
qed

lemma binade_bounds:
  assumes "x \<noteq> 0"
  shows "2 powi binade x \<le> \<bar>x\<bar>" and "\<bar>x\<bar> < 2 powi (binade x + 1)"
proof -
  have p: "2 powr real_of_int k = (2::real) powi k" for k
    by (rule powr_real_of_int') simp_all
  have "0 < \<bar>x\<bar>" using assms by simp
  from floor_log_eq_powr_iff [OF this, of 2 "binade x"]
  have "2 powr real_of_int (binade x) \<le> \<bar>x\<bar> \<and> \<bar>x\<bar> < 2 powr real_of_int (binade x + 1)"
    unfolding binade_def by simp
  then show "2 powi binade x \<le> \<bar>x\<bar>" and "\<bar>x\<bar> < 2 powi (binade x + 1)"
    unfolding p by blast+
qed

lemma binade_eqI:
  assumes "2 powi k \<le> \<bar>x\<bar>" and "\<bar>x\<bar> < 2 powi (k + 1)"
  shows "binade x = k"
proof -
  have p: "2 powr real_of_int k = (2::real) powi k" for k
    by (rule powr_real_of_int') simp_all
  have "(0::real) < 2 powi k" by simp
  with assms(1) have "0 < \<bar>x\<bar>" by linarith
  from floor_log_eq_powr_iff [OF this, of 2 k] assms show ?thesis
    unfolding binade_def p by simp
qed


lemma scale_split: "(2::real) powi (k - 52) = 2 powi k / 2 ^ 52"
  by (simp add: power_int_diff)

lemma scale_next: "(2::real) powi (k + 1) = 2 powi k * 2"
  by (simp add: power_int_add)

lemma round_binary64_eqI:
  assumes "2 powi k \<le> x" and "x < 2 powi (k + 1)"
    and "\<bar>x / 2 powi (k - 52) - of_int M\<bar> < 1 / 2"
  shows "round_binary64 x = of_int M * 2 powi (k - 52)"
proof -
  have "(0::real) < 2 powi k" by simp
  with assms(1) have pos: "0 < x" by linarith
  then have ax: "\<bar>x\<bar> = x" by simp
  have b: "binade x = k"
    by (rule binade_eqI) (simp_all add: ax assms)
  from round_half_even_unique [OF assms(3)] pos show ?thesis
    by (simp add: round_binary64_def Let_def b)
qed

lemma round_binary64_exact:
  assumes "2 ^ 52 \<le> M" and "M < 2 ^ 53"
  shows "round_binary64 (of_int M * 2 powi j) = of_int M * 2 powi j"
proof -
  have q: "(0::real) < 2 powi j" by simp
  have e1: "(2::real) powi (j + 52) = 2 ^ 52 * 2 powi j"
    by (simp add: power_int_add)
  have e2: "(2::real) powi (j + 52 + 1) = 2 ^ 53 * 2 powi j"
    by (simp add: power_int_add)
  have m1: "(2 ^ 52 :: real) \<le> of_int M" and m2: "of_int M < (2 ^ 53 :: real)"
  proof -
    have "real_of_int (2 ^ 52) \<le> real_of_int M"
      using assms(1) by (simp only: of_int_le_iff)
    then show "(2 ^ 52 :: real) \<le> of_int M" by simp
    have "real_of_int M < real_of_int (2 ^ 53)"
      using assms(2) by (simp only: of_int_less_iff)
    then show "of_int M < (2 ^ 53 :: real)" by simp
  qed
  have "(2::real) powi (j + 52) \<le> of_int M * 2 powi j"
    unfolding e1 using m1 q by (intro mult_right_mono) simp_all
  moreover have "of_int M * 2 powi j < (2::real) powi (j + 52 + 1)"
    unfolding e2 using m2 q by (intro mult_strict_right_mono) simp_all
  moreover have "\<bar>of_int M * 2 powi j / (2::real) powi (j + 52 - 52) - of_int M\<bar> < 1 / 2"
    by simp
  ultimately have "round_binary64 (of_int M * 2 powi j) = of_int M * 2 powi (j + 52 - 52)"
    by (rule round_binary64_eqI)
  then show ?thesis by simp
qed

lemma round_binary64_form:
  assumes "0 < x"
  obtains M where "2 ^ 52 \<le> M" and "M \<le> 2 ^ 53"
    and "round_binary64 x = of_int M * 2 powi (binade x - 52)"
    and "\<bar>of_int M - x / 2 powi (binade x - 52)\<bar> \<le> 1 / 2"
    and "2 ^ 52 \<le> x / 2 powi (binade x - 52)"
proof -
  let ?q = "(2::real) powi (binade x - 52)"
  let ?m = "x / ?q"
  define M where "M = round_half_even ?m"
  have q: "0 < ?q" by simp
  have ax: "\<bar>x\<bar> = x" using assms by simp
  from binade_bounds [of x] assms have b: "2 powi binade x \<le> x" "x < 2 powi (binade x + 1)"
    by (simp_all add: ax)
  have m: "?m = x * 2 ^ 52 / 2 powi binade x"
    by (simp add: scale_split)
  have p: "(0::real) < 2 powi binade x" by simp
  have m1: "2 ^ 52 \<le> ?m"
    unfolding m using b(1) p by (simp add: field_simps)
  have m2: "?m < 2 ^ 53"
    unfolding m using b(2) p unfolding scale_next by (simp add: field_simps)
  have near: "\<bar>of_int M - ?m\<bar> \<le> 1 / 2"
    unfolding M_def by (rule round_half_even_near)
  have "real_of_int M \<ge> 2 ^ 52 - 1 / 2" "real_of_int M \<le> 2 ^ 53 + 1 / 2"
    using near m1 m2 unfolding abs_le_iff by linarith+
  then have "real_of_int M > real_of_int (2 ^ 52 - 1)" "real_of_int M < real_of_int (2 ^ 53 + 1)"
    by simp_all
  then have "M > 2 ^ 52 - 1" "M < 2 ^ 53 + 1"
    by (simp_all only: of_int_less_iff)
  then have M1: "2 ^ 52 \<le> M" and M2: "M \<le> 2 ^ 53"
    by simp_all
  have "round_binary64 x = of_int M * ?q"
    using assms by (simp add: round_binary64_def Let_def M_def)
  from that [OF M1 M2 this near m1] show ?thesis .
qed

lemma round_binary64_neg: "round_binary64 (- x) = - round_binary64 x"
  by (simp add: round_binary64_def binade_def Let_def sgn_minus)

lemma round_binary64_idem_pos:
  assumes "0 < x"
  shows "round_binary64 (round_binary64 x) = round_binary64 x"
proof -
  from assms obtain M where M: "2 ^ 52 \<le> M" "M \<le> 2 ^ 53"
      "round_binary64 x = of_int M * 2 powi (binade x - 52)"
    by (rule round_binary64_form)
  show ?thesis
  proof (cases "M = 2 ^ 53")
    case False
    with M(2) have "M < 2 ^ 53" by simp
    from round_binary64_exact [OF M(1) this] show ?thesis
      unfolding M(3) .
  next
    case True
    define j where "j = binade x - 52"
    have "of_int M * 2 powi j = of_int (2 ^ 52) * (2::real) powi (j + 1)"
      unfolding True scale_next by simp
    moreover have "round_binary64 (of_int (2 ^ 52) * 2 powi (j + 1)) =
        of_int (2 ^ 52) * 2 powi (j + 1)"
      by (rule round_binary64_exact) simp_all
    ultimately show ?thesis
      unfolding M(3) j_def [symmetric] by (simp only:)
  qed
qed

lemma round_binary64_idem: "round_binary64 (round_binary64 x) = round_binary64 x"
proof (cases "x = 0")
  case True
  then show ?thesis by (simp add: round_binary64_def)
next
  case False
  show ?thesis
  proof (cases "0 < x")
    case True
    then show ?thesis by (rule round_binary64_idem_pos)
  next
    case neg: False
    with False have "0 < - x" by simp
    from round_binary64_idem_pos [OF this] show ?thesis
      by (simp add: round_binary64_neg)
  qed
qed

lemma round_binary64_rel:
  assumes "0 < x"
  shows "\<bar>round_binary64 x - x\<bar> \<le> x / 2 ^ 53"
proof -
  let ?q = "(2::real) powi (binade x - 52)"
  from assms obtain M where M: "round_binary64 x = of_int M * ?q"
      "\<bar>of_int M - x / ?q\<bar> \<le> 1 / 2" "2 ^ 52 \<le> x / ?q"
    by (rule round_binary64_form)
  have q: "0 < ?q" by simp
  have "round_binary64 x - x = (of_int M - x / ?q) * ?q"
    unfolding M(1) using q by (simp add: field_simps)
  then have "\<bar>round_binary64 x - x\<bar> = \<bar>of_int M - x / ?q\<bar> * ?q"
    using q by (simp add: abs_mult)
  also have "\<dots> \<le> 1 / 2 * ?q"
    using M(2) q by (intro mult_right_mono) simp_all
  also have "\<dots> \<le> x / 2 ^ 53"
  proof -
    from M(3) q have "2 ^ 52 * ?q \<le> x"
      by (simp add: field_simps)
    then show ?thesis by simp
  qed
  finally show ?thesis .
qed

lemma round_binary64_nat:
  assumes "0 < n" and "n < 2 ^ 53"
  shows "round_binary64 (real n * 2 powi j) = real n * 2 powi j"
proof -
  from ex_power_ivl1 [of 2 n] assms(1) obtain b where b: "2 ^ b \<le> n" "n < 2 ^ (b + 1)"
    by auto
  have "b < 53"
  proof (rule ccontr)
    assume "\<not> b < 53"
    then have "(2::nat) ^ 53 \<le> 2 ^ b"
      by (intro power_increasing) simp_all
    with b(1) assms(2) show False by simp
  qed
  then have b52: "b \<le> 52" by simp
  define M where "M = int n * 2 ^ (52 - b)"
  have sp: "(2::int) ^ 52 = 2 ^ b * 2 ^ (52 - b)" "(2::int) ^ 53 = 2 ^ (b + 1) * 2 ^ (52 - b)"
    using b52 by (simp_all flip: power_add)
  have "int (2 ^ b) \<le> int n" "int n < int (2 ^ (b + 1))"
    using b by (simp_all only: of_nat_le_iff of_nat_less_iff)
  then have n: "2 ^ b \<le> int n" "int n < 2 ^ (b + 1)"
    by simp_all
  have M1: "2 ^ 52 \<le> M"
    unfolding M_def sp(1) using n(1) by (intro mult_right_mono) simp_all
  have M2: "M < 2 ^ 53"
    unfolding M_def sp(2) using n(2) by (intro mult_strict_right_mono) simp_all
  have "real n * 2 powi j = of_int M * 2 powi (j - int (52 - b))"
    by (simp add: M_def power_int_diff)
  with round_binary64_exact [OF M1 M2, of "j - int (52 - b)"] show ?thesis
    by simp
qed

lemma round_binary64_dyadic:
  assumes "n \<le> 2 ^ 53"
  shows "round_binary64 (real n / 2 ^ k) = real n / 2 ^ k"
proof -
  have d: "real n / 2 ^ k = real n * 2 powi (- int k)"
    by (simp add: power_int_minus field_simps)
  show ?thesis
  proof (cases "n = 0")
    case True
    then show ?thesis by (simp add: round_binary64_def)
  next
    case False
    show ?thesis
    proof (cases "n = 2 ^ 53")
      case True
      have "real n * 2 powi (- int k) = of_int (2 ^ 52) * 2 powi (1 - int k)"
        unfolding True by (simp add: power_int_diff power_int_minus field_simps)
      moreover have "round_binary64 (of_int (2 ^ 52) * 2 powi (1 - int k)) =
          of_int (2 ^ 52) * 2 powi (1 - int k)"
        by (rule round_binary64_exact) simp_all
      ultimately show ?thesis
        unfolding d by simp
    next
      case ne: False
      with assms False have "0 < n" "n < 2 ^ 53"
        by simp_all
      from round_binary64_nat [OF this] show ?thesis
        unfolding d .
    qed
  qed
qed


lemma foldl_round_nat:
  "a + sum_list ns \<le> 2 ^ 53 \<Longrightarrow>
     foldl (\<lambda>s x. round_binary64 (s + x)) (real a) (map real ns) = real (a + sum_list ns)"
proof (induction ns arbitrary: a)
  case Nil
  then show ?case by simp
next
  case (Cons n ns)
  from Cons.prems have le: "a + n \<le> 2 ^ 53" "(a + n) + sum_list ns \<le> 2 ^ 53"
    by simp_all
  have "round_binary64 (real a + real n) = real (a + n)"
    using round_binary64_dyadic [OF le(1), of 0] by simp
  with Cons.IH [OF le(2)] show ?case
    by (simp add: add.assoc)
qed

lemma binary64_laws: "double_laws binary64_floats"
proof -
  have sums: "foldl (\<lambda>s x. round_binary64 (s + x)) 0 (map real ns) = real (sum_list ns)"
    if "sum_list ns \<le> 2 ^ 53" for ns
    using foldl_round_nat [of 0 ns] that by simp
  have rel: "\<bar>round_binary64 x - x\<bar> \<le> x / 2 ^ 53" if "1 / 2 ^ 64 \<le> x" for x
  proof -
    have "(0::real) < 1 / 2 ^ 64" by simp
    with that have "0 < x" by linarith
    then show ?thesis by (rule round_binary64_rel)
  qed
  have zero: "round_binary64 0 = 0"
    by (simp add: round_binary64_def)
  have "rnd binary64_floats = round_binary64"
    "fsum binary64_floats = (\<lambda>xs. foldl (\<lambda>s x. round_binary64 (s + x)) 0 xs)"
    "flog binary64_floats = (\<lambda>x. round_binary64 (ln x))"
    "iter_order binary64_floats = (\<lambda>a b. remdups (a @ b))"
    by (simp_all add: binary64_floats_def)
  then show ?thesis
    unfolding double_laws_def
    using round_binary64_idem round_binary64_dyadic rel sums zero
    by (intro conjI allI impI; simp only: ln_one distinct_remdups set_remdups set_append; blast?)
qed

text \<open>Single roundings.\<close>

lemma round_binary64_sqrt2: "round_binary64 (sqrt 2) = 6369051672525773 / 2 ^ 52"
proof -
  have lo: "(6369051672525773 - 1 / 2) / 2 ^ 52 < sqrt 2"
    by (rule real_less_rsqrt) (simp add: power2_eq_square)
  have hi: "sqrt 2 < (6369051672525773 + 1 / 2) / 2 ^ 52"
    by (rule real_less_lsqrt) (simp_all add: power2_eq_square)
  have "sqrt 2 < 2"
    by (rule real_less_lsqrt) simp_all
  moreover have "1 \<le> sqrt 2"
    by simp
  moreover have "\<bar>sqrt 2 * 2 ^ 52 - 6369051672525773\<bar> < 1 / 2"
    using lo hi unfolding abs_less_iff by (simp add: field_simps)
  ultimately have "round_binary64 (sqrt 2) = of_int 6369051672525773 * 2 powi (0 - 52)"
    by (intro round_binary64_eqI) simp_all
  then show ?thesis by simp
qed

lemma round_binary64_value:
  assumes "2 powi k \<le> x" and "x < 2 powi (k + 1)"
    and "\<bar>x / 2 powi (k - 52) - of_int M\<bar> < 1 / 2"
    and "y = of_int M * 2 powi (k - 52)"
  shows "round_binary64 x = y"
  unfolding assms(4) using assms(1-3) by (rule round_binary64_eqI)

lemma round_binary64_square:
  "round_binary64 (6369051672525773 / 2 ^ 52 * (6369051672525773 / 2 ^ 52)) =
     4503599627370497 / 2 ^ 51"
  by (rule round_binary64_value [of 1 _ 4503599627370497]) simp_all

lemma round_binary64_quotient:
  "round_binary64 (2 / (4503599627370497 / 2 ^ 51)) = 9007199254740990 / 2 ^ 53"
  by (rule round_binary64_value [of "- 1" _ 9007199254740990]) simp_all

lemma round_binary64_04: "round_binary64 0.4 = 7205759403792794 / 2 ^ 54"
  by (rule round_binary64_value [of "- 2" _ 7205759403792794]) simp_all

lemma round_binary64_035: "round_binary64 0.35 = 6305039478318694 / 2 ^ 54"
  by (rule round_binary64_value [of "- 2" _ 6305039478318694]) simp_all

lemma round_binary64_025: "round_binary64 0.25 = 0.25"
  by (rule round_binary64_value [of "- 2" _ "2 ^ 52"]) simp_all

lemma round_binary64_product:
  "round_binary64 (7205759403792794 / 2 ^ 54 * (9007199254740990 / 2 ^ 53)) =
     7205759403792792 / 2 ^ 54"
  by (rule round_binary64_value [of "- 2" _ 7205759403792792]) simp_all

lemma round_binary64_sum1:
  "round_binary64 (7205759403792792 / 2 ^ 54 + 6305039478318694 / 2 ^ 54) =
     6755399441055743 / 2 ^ 53"
  by (rule round_binary64_value [of "- 1" _ 6755399441055743]) simp_all

lemma round_binary64_sum2:
  "round_binary64 (6755399441055743 / 2 ^ 53 + 0.25) = 9007199254740991 / 2 ^ 53"
  by (rule round_binary64_value [of "- 1" _ 9007199254740991]) simp_all

lemma round_binary64_tie:
  assumes "2 powi k \<le> x" and "x < 2 powi (k + 1)"
    and "x / 2 powi (k - 52) = of_int M + 1 / 2" and "even M"
    and "y = of_int M * 2 powi (k - 52)"
  shows "round_binary64 x = y"
proof -
  have "(0::real) < 2 powi k" by simp
  with assms(1) have pos: "0 < x" by linarith
  then have ax: "\<bar>x\<bar> = x" by simp
  have b: "binade x = k"
    by (rule binade_eqI) (simp_all add: ax assms)
  have "\<lfloor>real_of_int M + 1 / 2\<rfloor> = M"
    by (rule floor_unique) simp_all
  then have "round_half_even (of_int M + 1 / 2) = M"
    using assms(4) by (simp add: round_half_even_def Let_def)
  with pos show ?thesis
    by (simp add: round_binary64_def Let_def b assms(3,5))
qed

lemma round_binary64_half:
  "round_binary64 (6305039478318694 / 2 ^ 54 * (1 / 2)) = 6305039478318694 / 2 ^ 55"
  by (rule round_binary64_value [of "- 3" _ 6305039478318694]) simp_all

lemma round_binary64_sum3:
  "round_binary64 (7205759403792794 / 2 ^ 54 + 6305039478318694 / 2 ^ 55) =
     5179139571476070 / 2 ^ 53"
  by (rule round_binary64_tie [of "- 1" _ 5179139571476070]) simp_all

lemma round_binary64_sum4:
  "round_binary64 (5179139571476070 / 2 ^ 53 + 0.25) = 7430939385161318 / 2 ^ 53"
  by (rule round_binary64_value [of "- 1" _ 7430939385161318]) simp_all

lemma round_binary64_0825: "round_binary64 0.825 = 7430939385161318 / 2 ^ 53"
  by (rule round_binary64_value [of "- 1" _ 7430939385161318]) simp_all

lemma round_binary64_one: "round_binary64 1 = 1"
  using rnd_small(2) [OF binary64_laws] by (simp add: binary64_floats_def)

lemma rnd_binary64 [simp]: "rnd binary64_floats = round_binary64"
  by (simp add: binary64_floats_def)

text \<open>The two scores.\<close>

lemma similarity_ab_binary64:
  "sim_score (compute_heuristic_similarity binary64_floats ''ab'' ''ab'') =
     7430939385161318 / 2 ^ 53"
proof -
  note L = binary64_laws
  have n: "ngram_similarity binary64_floats ''ab'' ''ab'' [2, 3] = 1 / 2"
    by (rule ngram_similarity_ab [OF L])
  have j: "jaccard_similarity binary64_floats [''ab''] [''ab''] = 1"
    by (rule jaccard_similarity_refl [OF L]) simp
  have S: "real (squared_counts binary64_floats [''ab'']) = 1"
    by (simp add: squared_counts_def binary64_floats_def)
  have t: "tfidf_overlap binary64_floats [''ab''] [''ab''] = 1"
    using tfidf_overlap_refl_eq(3) [OF L, of "[''ab'']"]
    unfolding S by (simp add: round_binary64_one)
  have c4: "fmul binary64_floats (round_binary64 0.4) 1 = 7205759403792794 / 2 ^ 54"
    unfolding fmul_def rnd_binary64 mult_1_right round_binary64_idem by (rule round_binary64_04)
  have c35: "fmul binary64_floats (round_binary64 0.35) (1 / 2) = 6305039478318694 / 2 ^ 55"
    unfolding fmul_def rnd_binary64 round_binary64_035 by (rule round_binary64_half)
  have c25: "fmul binary64_floats (round_binary64 0.25) 1 = 0.25"
    unfolding fmul_def rnd_binary64 mult_1_right round_binary64_idem by (rule round_binary64_025)
  have "sim_score (compute_heuristic_similarity binary64_floats ''ab'' ''ab'') =
      fadd binary64_floats
        (fadd binary64_floats (fmul binary64_floats (rnd binary64_floats 0.4) 1)
           (fmul binary64_floats (rnd binary64_floats 0.35) (1 / 2)))
        (fmul binary64_floats (rnd binary64_floats 0.25) 1)"
    unfolding compute_heuristic_similarity_def Let_def tokenize_ab n j t by simp
  also have "\<dots> = 7430939385161318 / 2 ^ 53"
    unfolding c4 c35 c25 fadd_def rnd_binary64 round_binary64_sum3 by (rule round_binary64_sum4)
  finally show ?thesis .
qed

lemma similarity_Abc_de_binary64:
  "sim_score (compute_heuristic_similarity binary64_floats ''Abc de'' ''Abc de'') =
     9007199254740991 / 2 ^ 53"
proof -
  note L = binary64_laws
  have tok: "tokenize ''Abc de'' = [''abc'', ''de'']"
    by (rule tokenize_Abc_de)
  have n: "ngram_similarity binary64_floats ''Abc de'' ''Abc de'' [2, 3] = 1"
    by (rule ngram_similarity_refl [OF L]) simp
  have j: "jaccard_similarity binary64_floats [''abc'', ''de''] [''abc'', ''de''] = 1"
    by (rule jaccard_similarity_refl [OF L]) simp
  have S: "real (squared_counts binary64_floats [''abc'', ''de'']) = 2"
    by (simp add: squared_counts_def binary64_floats_def)
  have "tfidf_overlap binary64_floats [''abc'', ''de''] [''abc'', ''de''] =
      round_binary64 (2 / round_binary64 (round_binary64 (sqrt 2) * round_binary64 (sqrt 2)))"
    using tfidf_overlap_refl_eq(3) [OF L, of "[''abc'', ''de'']"]
    unfolding S rnd_binary64 by simp
  also have "\<dots> = 9007199254740990 / 2 ^ 53"
    unfolding round_binary64_sqrt2 round_binary64_square by (rule round_binary64_quotient)
  finally have t: "tfidf_overlap binary64_floats [''abc'', ''de''] [''abc'', ''de''] =
      9007199254740990 / 2 ^ 53" .
  have c4: "fmul binary64_floats (round_binary64 0.4) (9007199254740990 / 2 ^ 53) =
      7205759403792792 / 2 ^ 54"
    unfolding fmul_def rnd_binary64 round_binary64_04 by (rule round_binary64_product)
  have c35: "fmul binary64_floats (round_binary64 0.35) 1 = 6305039478318694 / 2 ^ 54"
    unfolding fmul_def rnd_binary64 mult_1_right round_binary64_idem by (rule round_binary64_035)
  have c25: "fmul binary64_floats (round_binary64 0.25) 1 = 0.25"
    unfolding fmul_def rnd_binary64 mult_1_right round_binary64_idem by (rule round_binary64_025)
  have "sim_score (compute_heuristic_similarity binary64_floats ''Abc de'' ''Abc de'') =
      fadd binary64_floats
        (fadd binary64_floats
           (fmul binary64_floats (rnd binary64_floats 0.4) (9007199254740990 / 2 ^ 53))
           (fmul binary64_floats (rnd binary64_floats 0.35) 1))
        (fmul binary64_floats (rnd binary64_floats 0.25) 1)"
    unfolding compute_heuristic_similarity_def Let_def tok n j t by simp
  also have "\<dots> = 9007199254740991 / 2 ^ 53"
    unfolding c4 c35 c25 fadd_def rnd_binary64 round_binary64_sum1 by (rule round_binary64_sum2)
  finally show ?thesis .
qed

text \<open>
  In binary64 arithmetic the similarity of the two-letter text \<^verbatim>\<open>ab\<close> with itself is the
  double that \<^verbatim>\<open>0.825\<close> denotes, and the similarity of \<^verbatim>\<open>Abc de\<close> with itself is
  \<open>1 - 2^-53\<close> (printed \<^verbatim>\<open>0.9999999999999999\<close>): the cosine of the vector \<open>(1, 1)\<close> with itself
  is \<open>2 / (sqrt 2 * sqrt 2)\<close> with three roundings, \<open>1 - 2^-52\<close>.
\<close>

theorem heuristic_similarity_not_reflexive:
  "set (tokenize ''ab'') \<noteq> {} \<and>
   sim_score (compute_heuristic_similarity binary64_floats ''ab'' ''ab'') = round_binary64 0.825 \<and>
   sim_score (compute_heuristic_similarity binary64_floats ''ab'' ''ab'') \<noteq> 1.0 \<and>
   set (tokenize ''Abc de'') \<noteq> {} \<and>
   sim_score (compute_heuristic_similarity binary64_floats ''Abc de'' ''Abc de'') = 1 - 1 / 2 ^ 53 \<and>
   sim_score (compute_heuristic_similarity binary64_floats ''Abc de'' ''Abc de'') \<noteq> 1.0"
  unfolding similarity_ab_binary64 similarity_Abc_de_binary64 round_binary64_0825
  by (simp add: tokenize_ab tokenize_Abc_de)

subsection \<open>Reflexivity and symmetry\<close>

text \<open>
  Claim C5, amended. For every text \<open>t\<close> with a token, at least three characters and at
  most \<open>2^26\<close> tokens, the n-gram and the Jaccard component of the similarity of \<open>t\<close>
  with itself are exactly 1.0, the score is 1.0 up to the rounding of the TF-IDF cosine
  and of the weighted sum (it differs from 1.0 by at most \<open>2^-50\<close>), and the label is
  \<^verbatim>\<open>high\<close>. For all texts \<open>a\<close>, \<open>b\<close> the n-gram and the Jaccard component of the similarity
  of \<open>a\<close> with \<open>b\<close> are those of \<open>b\<close> with \<open>a\<close>, and the two results are equal whenever the
  two calls iterate the vocabulary set in the same order.
\<close>

theorem heuristic_similarity_reflexive_symmetric:
  assumes L: "double_laws F"
  shows
    "(tokenize t \<noteq> [] \<and> 3 \<le> length t \<and> length (tokenize t) \<le> 2 ^ 26 \<longrightarrow>
        ngram_similarity F t t [2, 3] = 1 \<and>
        jaccard_similarity F (tokenize t) (tokenize t) = 1 \<and>
        \<bar>sim_score (compute_heuristic_similarity F t t) - 1\<bar> \<le> 1 / 2 ^ 50 \<and>
        sim_label (compute_heuristic_similarity F t t) = ''high'') \<and>
     ngram_similarity F a b [2, 3] = ngram_similarity F b a [2, 3] \<and>
     jaccard_similarity F (tokenize a) (tokenize b) =
       jaccard_similarity F (tokenize b) (tokenize a) \<and>
     (iter_order F (tokenize a) (tokenize b) = iter_order F (tokenize b) (tokenize a) \<longrightarrow>
        compute_heuristic_similarity F a b = compute_heuristic_similarity F b a)"
proof -
  have refl: "ngram_similarity F t t [2, 3] = 1 \<and>
        jaccard_similarity F (tokenize t) (tokenize t) = 1 \<and>
        \<bar>sim_score (compute_heuristic_similarity F t t) - 1\<bar> \<le> 1 / 2 ^ 50 \<and>
        sim_label (compute_heuristic_similarity F t t) = ''high''"
    if tok: "tokenize t \<noteq> []" and three: "3 \<le> length t" and len: "length (tokenize t) \<le> 2 ^ 26"
  proof -
    have n: "ngram_similarity F t t [2, 3] = 1"
      by (rule ngram_similarity_refl [OF L three])
    have j: "jaccard_similarity F (tokenize t) (tokenize t) = 1"
      by (rule jaccard_similarity_refl [OF L tok])
    note x = tfidf_overlap_refl [OF L tok len]
    define sc where "sc = fadd F (fadd F (fmul F (rnd F 0.4) (tfidf_overlap F (tokenize t) (tokenize t)))
                                        (fmul F (rnd F 0.35) 1))
                                (fmul F (rnd F 0.25) 1)"
    have b: "1 - 1 / 2 ^ 50 \<le> sc" "sc \<le> 1 + 1 / 2 ^ 50"
      unfolding sc_def by (rule weighted_sum_bounds [OF L x])+
    have high: "HIGH_THRESHOLD \<le> sc"
    proof -
      have "HIGH_THRESHOLD \<le> 1 - 1 / 2 ^ 50"
        by (simp add: HIGH_THRESHOLD_def)
      with b(1) show ?thesis by linarith
    qed
    have res: "compute_heuristic_similarity F t t = \<lparr>sim_label = ''high'', sim_score = sc\<rparr>"
      unfolding compute_heuristic_similarity_def Let_def n j sc_def [symmetric]
      using tok high by simp
    have "\<bar>sc - 1\<bar> \<le> 1 / 2 ^ 50"
      unfolding abs_le_iff using b by linarith
    with n j res show ?thesis
      by simp
  qed
  from refl ngram_similarity_sym [of F a b] jaccard_similarity_sym [of F "tokenize a" "tokenize b"]
    compute_heuristic_similarity_sym [of F a b]
  show ?thesis
    by blast
qed

theorem heuristic_similarity_reflexive_symmetric_witness:
  "double_laws binary64_floats \<and>
   tokenize ''Abc de'' \<noteq> [] \<and> 3 \<le> length ''Abc de'' \<and> length (tokenize ''Abc de'') \<le> 2 ^ 26 \<and>
   \<bar>sim_score (compute_heuristic_similarity binary64_floats ''Abc de'' ''Abc de'') - 1\<bar> \<le> 1 / 2 ^ 50 \<and>
   sim_label (compute_heuristic_similarity binary64_floats ''Abc de'' ''Abc de'') = ''high'' \<and>
   iter_order binary64_floats (tokenize ''Abc de'') (tokenize ''de'') =
     iter_order binary64_floats (tokenize ''de'') (tokenize ''Abc de'') \<and>
   compute_heuristic_similarity binary64_floats ''Abc de'' ''de'' =
     compute_heuristic_similarity binary64_floats ''de'' ''Abc de''"
proof -
  have h: "tokenize ''Abc de'' \<noteq> [] \<and> 3 \<le> length ''Abc de'' \<and>
      length (tokenize ''Abc de'') \<le> 2 ^ 26"
    by (simp add: tokenize_Abc_de)
  have o: "iter_order binary64_floats (tokenize ''Abc de'') (tokenize ''de'') =
     iter_order binary64_floats (tokenize ''de'') (tokenize ''Abc de'')"
    by (simp add: tokenize_Abc_de tokenize_de binary64_floats_def)
  note main = heuristic_similarity_reflexive_symmetric
    [OF binary64_laws, of "''Abc de''" "''Abc de''" "''de''"]
  from main h have
    "\<bar>sim_score (compute_heuristic_similarity binary64_floats ''Abc de'' ''Abc de'') - 1\<bar> \<le> 1 / 2 ^ 50"
    "sim_label (compute_heuristic_similarity binary64_floats ''Abc de'' ''Abc de'') = ''high''"
    by blast+
  moreover from main o have "compute_heuristic_similarity binary64_floats ''Abc de'' ''de'' =
     compute_heuristic_similarity binary64_floats ''de'' ''Abc de''"
    by blast
  ultimately show ?thesis
    using binary64_laws h o by blast
qed

section \<open>\<^verbatim>\<open>RuleVerificationWorkflow\<close> (\<^verbatim>\<open>workflows/workflows.py\<close>)\<close>

datatype WorkflowStatus = PENDING | RUNNING | COMPLETED | FAILED | CANCELLED | TIMED_OUT

datatype VerificationTier = SCHEMA | LEXICAL | SEMANTIC | NLI | CROSS_RULE

fun tier_value :: "VerificationTier \<Rightarrow> nat" where
  "tier_value SCHEMA = 0"
| "tier_value LEXICAL = 1"
| "tier_value SEMANTIC = 2"
| "tier_value NLI = 3"
| "tier_value CROSS_RULE = 4"

text \<open>A \<^verbatim>\<open>TierResult\<close> without its \<^verbatim>\<open>evidence\<close> dictionaries and its \<^verbatim>\<open>duration_ms\<close>.\<close>

record TierResult =
  tier :: VerificationTier
  tier_name :: string
  passed :: bool
  tier_score :: real
  checks_run :: nat
  checks_passed :: nat

record RuleVerificationInput =
  input_rule_id :: string
  source_text :: "string option"
  max_tier :: VerificationTier
  skip_tiers :: "VerificationTier list"
  fail_fast :: bool

record RuleVerificationOutput =
  status :: WorkflowStatus
  tier_results :: "TierResult list"
  highest_tier_passed :: "VerificationTier option"
  overall_score :: real
  overall_passed :: bool
  stopped_early :: bool
  stop_reason :: "string option"
  error :: "string option"

text \<open>
  The fields of the workflow object (\<^verbatim>\<open>self._status\<close>, \<^verbatim>\<open>self._tier_results\<close>, ...),
  without the workflow id and the two clock readings.
\<close>

record rv_state =
  s_status :: WorkflowStatus
  s_current_tier :: "VerificationTier option"
  s_tier_results :: "TierResult list"
  s_tiers_completed :: "VerificationTier list"
  s_tiers_remaining :: "VerificationTier list"
  s_skip_tiers :: "VerificationTier set"
  s_stopped_early :: bool
  s_stop_reason :: "string option"
  s_error :: "string option"

text \<open>
  The form in which the return value of an activity reaches the workflow. The workflows
  call every activity by its name (\<^verbatim>\<open>workflow.execute_activity("verify_tier_0_activity", ...)\<close>)
  and pass no \<^verbatim>\<open>result_type\<close>, and the worker installs no data converter, so the runtime has
  no class to decode the JSON payload into: the workflow receives the decoded \<^verbatim>\<open>dict\<close>
  (\<^verbatim>\<open>AsDict\<close>). An instance of the result class (\<^verbatim>\<open>AsInstance\<close>) arrives only where the
  runtime is told the class. \<^verbatim>\<open>ComplianceCheckWorkflow\<close> reads its activity results under
  \<^verbatim>\<open>hasattr(e, "id")\<close> with \<^verbatim>\<open>e.get("id")\<close> as the other branch; the two workflows below
  read attributes unguarded.
\<close>

datatype result_shape = AsInstance | AsDict

text \<open>\<^verbatim>\<open>obj.name\<close>: the field of an instance; on a dict, \<^verbatim>\<open>AttributeError\<close> with the message
  \<^verbatim>\<open>'dict' object has no attribute 'name'\<close>.\<close>

definition attribute_error :: "string \<Rightarrow> string" where
  "attribute_error name = quoted ''dict'' @ '' object has no attribute '' @ quoted name"

definition getattr :: "result_shape \<Rightarrow> ('a \<Rightarrow> 'b) \<Rightarrow> string \<Rightarrow> 'a \<Rightarrow> string + 'b" where
  "getattr shape attr name obj =
     (case shape of AsInstance \<Rightarrow> Inr (attr obj) | AsDict \<Rightarrow> Inl (attribute_error name))"

text \<open>The attribute read by each element of a generator expression
  (\<^verbatim>\<open>r.score for r in self._tier_results\<close>), left to right.\<close>

fun getattrs :: "result_shape \<Rightarrow> ('a \<Rightarrow> 'b) \<Rightarrow> string \<Rightarrow> 'a list \<Rightarrow> string + 'b list" where
  "getattrs shape attr name [] = Inr []"
| "getattrs shape attr name (x # xs) =
     (case getattr shape attr name x of
        Inl e \<Rightarrow> Inl e
      | Inr v \<Rightarrow>
          (case getattrs shape attr name xs of
             Inl e \<Rightarrow> Inl e
           | Inr vs \<Rightarrow> Inr (v # vs)))"

text \<open>
  What the Temporal runtime contributes to one run. An activity call
  (\<^verbatim>\<open>workflow.execute_activity\<close> under \<^verbatim>\<open>DEFAULT_RETRY_POLICY\<close>) either returns a result or
  raises, with the message of the exception; the arguments of a tier activity (the rule
  id and the source text) are fixed for a run, so its outcome is given per tier, as the
  fields of the \<^verbatim>\<open>TierResult\<close> the activity returned; \<^verbatim>\<open>activity_results\<close> is the form in
  which they reach the workflow.
  \<^verbatim>\<open>skip_tier\<close> signals are handled only while the workflow body is suspended: before it
  starts, while the load activity is awaited, and while a tier activity is awaited.
\<close>

record rv_env =
  load_rule_outcome :: "string + unit"
  tier_outcome :: "VerificationTier \<Rightarrow> string + TierResult"
  activity_results :: result_shape
  signals_before_run :: "VerificationTier list"
  signals_during_load :: "VerificationTier list"
  signals_during_tier :: "VerificationTier \<Rightarrow> VerificationTier list"

definition init_state :: rv_state where
  "init_state =
     \<lparr>s_status = PENDING, s_current_tier = None, s_tier_results = [], s_tiers_completed = [],
      s_tiers_remaining = [], s_skip_tiers = {}, s_stopped_early = False,
      s_stop_reason = None, s_error = None\<rparr>"

definition skip_tier :: "VerificationTier \<Rightarrow> rv_state \<Rightarrow> rv_state" where
  "skip_tier t st = st\<lparr>s_skip_tiers := insert t (s_skip_tiers st)\<rparr>"

definition deliver :: "VerificationTier list \<Rightarrow> rv_state \<Rightarrow> rv_state" where
  "deliver sigs st = fold skip_tier sigs st"

text \<open>\<^verbatim>\<open>list.remove(x)\<close> removes the first occurrence and raises \<^verbatim>\<open>ValueError\<close> when there
  is none.\<close>

definition list_remove :: "'a \<Rightarrow> 'a list \<Rightarrow> string + 'a list" where
  "list_remove x xs =
     (if x \<in> set xs then Inr (remove1 x xs) else Inl ''list.remove(x): x not in list'')"

definition all_tiers :: "VerificationTier list" where
  "all_tiers = [SCHEMA, LEXICAL, SEMANTIC, NLI, CROSS_RULE]"

text \<open>\<^verbatim>\<open>f"Tier {tier.value} ({result.tier_name}) failed"\<close>, given the name read from the
  result.\<close>

definition failed_message :: "VerificationTier \<Rightarrow> string \<Rightarrow> string" where
  "failed_message t name =
     ''Tier '' @ [digit_char (tier_value t)] @ '' ('' @ name @ '') failed''"

datatype flow = Continue | Break | Raise string

text \<open>The body of the loop \<^verbatim>\<open>for tier in list(self._tiers_remaining)\<close>. In
  \<^verbatim>\<open>input.fail_fast and not result.passed\<close> the attribute is read only when \<^verbatim>\<open>fail_fast\<close>
  is set.\<close>

definition tier_body ::
    "rv_env \<Rightarrow> RuleVerificationInput \<Rightarrow> VerificationTier \<Rightarrow> rv_state \<Rightarrow> flow \<times> rv_state" where
  "tier_body env inp t st =
     (if t \<in> s_skip_tiers st then
        (case list_remove t (s_tiers_remaining st) of
           Inl e \<Rightarrow> (Raise e, st)
         | Inr rest \<Rightarrow> (Continue, st\<lparr>s_tiers_remaining := rest\<rparr>))
      else
        let st1 = deliver (signals_during_tier env t) (st\<lparr>s_current_tier := Some t\<rparr>)
        in case tier_outcome env t of
             Inl e \<Rightarrow> (Raise e, st1)
           | Inr r \<Rightarrow>
               let st2 = st1\<lparr>s_tier_results := s_tier_results st1 @ [r],
                             s_tiers_completed := s_tiers_completed st1 @ [t]\<rparr>
               in case list_remove t (s_tiers_remaining st2) of
                    Inl e \<Rightarrow> (Raise e, st2)
                  | Inr rest \<Rightarrow>
                      let st3 = st2\<lparr>s_tiers_remaining := rest\<rparr>
                      in if fail_fast inp then
                           (case getattr (activity_results env) passed ''passed'' r of
                              Inl e \<Rightarrow> (Raise e, st3)
                            | Inr ok \<Rightarrow>
                                if \<not> ok then
                                  (case getattr (activity_results env) tier_name ''tier_name'' r of
                                     Inl e \<Rightarrow> (Raise e, st3\<lparr>s_stopped_early := True\<rparr>)
                                   | Inr name \<Rightarrow>
                                       (Break, st3\<lparr>s_stopped_early := True,
                                                   s_stop_reason := Some (failed_message t name)\<rparr>))
                                else (Continue, st3))
                         else (Continue, st3))"

fun run_tiers ::
    "rv_env \<Rightarrow> RuleVerificationInput \<Rightarrow> VerificationTier list \<Rightarrow> rv_state \<Rightarrow> string option \<times> rv_state" where
  "run_tiers env inp [] st = (None, st)"
| "run_tiers env inp (t # ts) st =
     (case tier_body env inp t st of
        (Continue, st') \<Rightarrow> run_tiers env inp ts st'
      | (Break, st') \<Rightarrow> (None, st')
      | (Raise e, st') \<Rightarrow> (Some e, st'))"

text \<open>The statements of \<^verbatim>\<open>run\<close> inside \<^verbatim>\<open>try\<close>: the load activity, then the loop.\<close>

definition run_try ::
    "rv_env \<Rightarrow> RuleVerificationInput \<Rightarrow> rv_state \<Rightarrow> string option \<times> rv_state" where
  "run_try env inp st =
     (let st1 = deliver (signals_during_load env) st
      in case load_rule_outcome env of
           Inl e \<Rightarrow> (Some e, st1)
         | Inr u \<Rightarrow> run_tiers env inp (s_tiers_remaining st1) st1)"

text \<open>The loop \<^verbatim>\<open>for result in reversed(self._tier_results)\<close> that looks for the highest
  tier passed, on the reversed list.\<close>

fun find_highest_passed :: "result_shape \<Rightarrow> TierResult list \<Rightarrow> string + VerificationTier option" where
  "find_highest_passed shape [] = Inr None"
| "find_highest_passed shape (r # rs) =
     (case getattr shape passed ''passed'' r of
        Inl e \<Rightarrow> Inl e
      | Inr ok \<Rightarrow>
          if ok then
            (case getattr shape tier ''tier'' r of
               Inl e \<Rightarrow> Inl e
             | Inr t \<Rightarrow> Inr (Some t))
          else find_highest_passed shape rs)"

text \<open>The statements of \<^verbatim>\<open>run\<close> before \<^verbatim>\<open>try\<close>: the skip set is filled from the input
  and the list of tiers to execute is built.\<close>

definition start_state :: "rv_env \<Rightarrow> RuleVerificationInput \<Rightarrow> rv_state" where
  "start_state env inp =
     (let st0 = deliver (signals_before_run env) init_state;
          st1 = fold skip_tier (skip_tiers inp) (st0\<lparr>s_status := RUNNING\<rparr>)
      in st1\<lparr>s_tiers_remaining :=
                filter (\<lambda>t. tier_value t \<le> tier_value (max_tier inp) \<and> t \<notin> s_skip_tiers st1)
                  all_tiers\<rparr>)"

text \<open>The statements after the loop, up to the \<^verbatim>\<open>return\<close> of the completed output; they
  are inside \<^verbatim>\<open>try\<close>, and each reads attributes of the tier results. (\<^verbatim>\<open>all\<close> stops reading
  at the first false element; the reads of one run either all succeed, or the first one
  raises.)\<close>

definition compute_final_results :: "result_shape \<Rightarrow> rv_state \<Rightarrow> string + RuleVerificationOutput" where
  "compute_final_results shape st =
     (case find_highest_passed shape (rev (s_tier_results st)) of
        Inl e \<Rightarrow> Inl e
      | Inr highest \<Rightarrow>
          (case getattrs shape tier_score ''score'' (s_tier_results st) of
             Inl e \<Rightarrow> Inl e
           | Inr scores \<Rightarrow>
               (case getattrs shape passed ''passed'' (s_tier_results st) of
                  Inl e \<Rightarrow> Inl e
                | Inr oks \<Rightarrow>
                    Inr \<lparr>status = COMPLETED, tier_results = s_tier_results st,
                         highest_tier_passed = highest,
                         overall_score =
                           (if s_tier_results st \<noteq> []
                            then sum_list scores / real (length (s_tier_results st))
                            else 0.0),
                         overall_passed = list_all id oks,
                         stopped_early = s_stopped_early st, stop_reason = s_stop_reason st,
                         error = None\<rparr>)))"

definition failed_output :: "string \<Rightarrow> rv_state \<Rightarrow> RuleVerificationOutput" where
  "failed_output e st =
     \<lparr>status = FAILED, tier_results = s_tier_results st, highest_tier_passed = None,
      overall_score = 0.0, overall_passed = False, stopped_early = True,
      stop_reason = Some e, error = Some e\<rparr>"

text \<open>\<^verbatim>\<open>run\<close> returns the output record; the final workflow object is returned beside
  it.\<close>

definition run :: "rv_env \<Rightarrow> RuleVerificationInput \<Rightarrow> RuleVerificationOutput \<times> rv_state" where
  "run env inp =
     (case run_try env inp (start_state env inp) of
        (None, st) \<Rightarrow>
          (case compute_final_results (activity_results env) st of
             Inr out \<Rightarrow> (out, st\<lparr>s_status := COMPLETED, s_current_tier := None\<rparr>)
           | Inl e \<Rightarrow> (failed_output e st, st\<lparr>s_status := FAILED, s_error := Some e\<rparr>))
      | (Some e, st) \<Rightarrow> (failed_output e st, st\<lparr>s_status := FAILED, s_error := Some e\<rparr>))"

text \<open>The output of a run in which no attribute read raises: the highest tier passed is
  that of the last passing result, the score the mean, the verdict the conjunction.\<close>

definition highest_passed :: "TierResult list \<Rightarrow> VerificationTier option" where
  "highest_passed results = map_option tier (find passed (rev results))"

definition completed_output :: "rv_state \<Rightarrow> RuleVerificationOutput" where
  "completed_output st =
     \<lparr>status = COMPLETED, tier_results = s_tier_results st,
      highest_tier_passed = highest_passed (s_tier_results st),
      overall_score =
        (if s_tier_results st \<noteq> []
         then sum_list (map tier_score (s_tier_results st)) / real (length (s_tier_results st))
         else 0.0),
      overall_passed = list_all passed (s_tier_results st),
      stopped_early = s_stopped_early st, stop_reason = s_stop_reason st, error = None\<rparr>"

text \<open>The order in which the tiers run, and the state in which the loop starts.\<close>

definition tier_lt :: "VerificationTier \<Rightarrow> VerificationTier \<Rightarrow> bool" where
  "tier_lt a b \<longleftrightarrow> tier_value a < tier_value b"

definition loop_state :: "rv_env \<Rightarrow> RuleVerificationInput \<Rightarrow> rv_state" where
  "loop_state env inp = deliver (signals_during_load env) (start_state env inp)"

subsection \<open>Example runs\<close>

definition example_result :: "VerificationTier \<Rightarrow> bool \<Rightarrow> TierResult" where
  "example_result t ok =
     \<lparr>tier = t, tier_name = ''check'', passed = ok, tier_score = (if ok then 1.0 else 0.0),
      checks_run = 1, checks_passed = (if ok then 1 else 0)\<rparr>"

definition example_env_schema_fails :: "result_shape \<Rightarrow> rv_env" where
  "example_env_schema_fails shape =
     \<lparr>load_rule_outcome = Inr (),
      tier_outcome = (\<lambda>t. Inr (example_result t (t \<noteq> SCHEMA))),
      activity_results = shape,
      signals_before_run = [], signals_during_load = [],
      signals_during_tier = (\<lambda>t. [])\<rparr>"

definition example_env_signal :: "result_shape \<Rightarrow> rv_env" where
  "example_env_signal shape =
     \<lparr>load_rule_outcome = Inr (),
      tier_outcome = (\<lambda>t. Inr (example_result t True)),
      activity_results = shape,
      signals_before_run = [], signals_during_load = [],
      signals_during_tier = (\<lambda>t. if t = SCHEMA then [SEMANTIC] else [])\<rparr>"

definition example_env_load_signal :: rv_env where
  "example_env_load_signal =
     \<lparr>load_rule_outcome = Inr (),
      tier_outcome = (\<lambda>t. Inr (example_result t True)),
      activity_results = AsDict,
      signals_before_run = [], signals_during_load = [LEXICAL],
      signals_during_tier = (\<lambda>t. [])\<rparr>"

definition example_input :: "VerificationTier \<Rightarrow> VerificationTier list \<Rightarrow> bool \<Rightarrow> RuleVerificationInput" where
  "example_input mt skips ff =
     \<lparr>input_rule_id = ''rule_a'', source_text = None, max_tier = mt, skip_tiers = skips,
      fail_fast = ff\<rparr>"

subsection \<open>One iteration of the tier loop\<close>

lemma deliver_fields [simp]:
  "s_skip_tiers (deliver sigs st) = s_skip_tiers st \<union> set sigs"
  "s_tier_results (deliver sigs st) = s_tier_results st"
  "s_tiers_completed (deliver sigs st) = s_tiers_completed st"
  "s_tiers_remaining (deliver sigs st) = s_tiers_remaining st"
  "s_stopped_early (deliver sigs st) = s_stopped_early st"
  "s_stop_reason (deliver sigs st) = s_stop_reason st"
  unfolding deliver_def by (induction sigs arbitrary: st; simp add: skip_tier_def)+

lemma fold_skip_tier_fields [simp]:
  "s_skip_tiers (fold skip_tier sigs st) = s_skip_tiers st \<union> set sigs"
  "s_tier_results (fold skip_tier sigs st) = s_tier_results st"
  "s_tiers_completed (fold skip_tier sigs st) = s_tiers_completed st"
  "s_tiers_remaining (fold skip_tier sigs st) = s_tiers_remaining st"
  "s_stopped_early (fold skip_tier sigs st) = s_stopped_early st"
  "s_stop_reason (fold skip_tier sigs st) = s_stop_reason st"
  using deliver_fields [of sigs st] unfolding deliver_def by simp_all

text \<open>Attribute reads.\<close>

lemma getattr_instance [simp]: "getattr AsInstance attr name obj = Inr (attr obj)"
  by (simp add: getattr_def)

lemma getattr_dict [simp]: "getattr AsDict attr name obj = Inl (attribute_error name)"
  by (simp add: getattr_def)

lemma getattrs_instance [simp]: "getattrs AsInstance attr name xs = Inr (map attr xs)"
  by (induction xs) simp_all

lemma getattrs_dict [simp]:
  "xs \<noteq> [] \<Longrightarrow> getattrs AsDict attr name xs = Inl (attribute_error name)"
  by (cases xs) simp_all

lemma find_highest_passed_instance [simp]:
  "find_highest_passed AsInstance rs = Inr (map_option tier (find passed rs))"
  by (induction rs) simp_all

lemma find_highest_passed_dict [simp]:
  "rs \<noteq> [] \<Longrightarrow> find_highest_passed AsDict rs = Inl (attribute_error ''passed'')"
  by (cases rs) simp_all

lemma list_all_id_map: "list_all id (map f xs) = list_all f xs"
  by (induction xs) simp_all

text \<open>The final computation returns the completed output when the results are instances
  or there is none, and raises on the first read otherwise.\<close>

lemma compute_final_results_instance:
  "compute_final_results AsInstance st = Inr (completed_output st)"
  by (simp add: compute_final_results_def completed_output_def highest_passed_def list_all_id_map)

lemma compute_final_results_empty:
  "s_tier_results st = [] \<Longrightarrow> compute_final_results shape st = Inr (completed_output st)"
  by (simp add: compute_final_results_def completed_output_def highest_passed_def)

lemma compute_final_results_dict:
  "s_tier_results st \<noteq> [] \<Longrightarrow>
     compute_final_results AsDict st = Inl (attribute_error ''passed'')"
  by (simp add: compute_final_results_def)

lemma compute_final_results_Inr:
  assumes "compute_final_results shape st = Inr out"
  shows "out = completed_output st"
proof (cases shape)
  case AsInstance
  with assms show ?thesis by (simp add: compute_final_results_instance)
next
  case AsDict
  show ?thesis
  proof (cases "s_tier_results st = []")
    case True
    from compute_final_results_empty [OF True, of shape] assms show ?thesis by simp
  next
    case False
    from compute_final_results_dict [OF False] assms AsDict show ?thesis by simp
  qed
qed

text \<open>One iteration.\<close>

lemma tier_body_skipped:
  assumes "t \<in> s_skip_tiers st" and "tier_body env inp t st = (fl, st')"
  shows "s_tiers_completed st' = s_tiers_completed st \<and> s_tier_results st' = s_tier_results st \<and>
         s_skip_tiers st' = s_skip_tiers st \<and> s_stopped_early st' = s_stopped_early st \<and>
         s_stop_reason st' = s_stop_reason st \<and> fl \<noteq> Break \<and>
         (t \<in> set (s_tiers_remaining st) \<longrightarrow>
            fl = Continue \<and> s_tiers_remaining st' = remove1 t (s_tiers_remaining st))"
  using assms unfolding tier_body_def list_remove_def by (auto split: if_splits)

lemma tier_body_raised:
  assumes "t \<notin> s_skip_tiers st" and "tier_outcome env t = Inl e"
    and "tier_body env inp t st = (fl, st')"
  shows "fl = Raise e \<and> s_tiers_completed st' = s_tiers_completed st \<and>
         s_tier_results st' = s_tier_results st"
  using assms unfolding tier_body_def by (auto simp: Let_def)

lemma tier_body_executed:
  assumes "t \<notin> s_skip_tiers st" and "tier_outcome env t = Inr r"
    and "tier_body env inp t st = (fl, st')"
  shows "s_tiers_completed st' = s_tiers_completed st @ [t] \<and>
         s_tier_results st' = s_tier_results st @ [r] \<and>
         s_skip_tiers st' = s_skip_tiers st \<union> set (signals_during_tier env t) \<and>
         (fl = Break \<longrightarrow> fail_fast inp \<and> \<not> passed r \<and> activity_results env = AsInstance) \<and>
         (fl = Continue \<longrightarrow> \<not> (fail_fast inp \<and> \<not> passed r) \<and>
            s_stopped_early st' = s_stopped_early st \<and> s_stop_reason st' = s_stop_reason st) \<and>
         (t \<in> set (s_tiers_remaining st) \<longrightarrow>
            s_tiers_remaining st' = remove1 t (s_tiers_remaining st) \<and>
            (\<not> fail_fast inp \<longrightarrow> fl = Continue) \<and>
            (fail_fast inp \<and> activity_results env = AsDict \<longrightarrow>
               fl = Raise (attribute_error ''passed'')) \<and>
            (fail_fast inp \<and> activity_results env = AsInstance \<and> passed r \<longrightarrow> fl = Continue) \<and>
            (fail_fast inp \<and> activity_results env = AsInstance \<and> \<not> passed r \<longrightarrow>
               fl = Break \<and> s_stopped_early st' \<and>
               s_stop_reason st' = Some (failed_message t (tier_name r))))"
proof (cases "activity_results env")
  case AsInstance
  with assms show ?thesis
    unfolding tier_body_def list_remove_def by (auto simp: Let_def split: if_splits)
next
  case AsDict
  with assms show ?thesis
    unfolding tier_body_def list_remove_def by (auto simp: Let_def split: if_splits)
qed


text \<open>The loop.\<close>

lemma run_tiers_Cons_cases:
  assumes "run_tiers env inp (t # ts) st = (exc, st')"
  obtains (continue) st1 where "tier_body env inp t st = (Continue, st1)"
      "run_tiers env inp ts st1 = (exc, st')"
    | (break) "tier_body env inp t st = (Break, st')" "exc = None"
    | (raise) e where "tier_body env inp t st = (Raise e, st')" "exc = Some e"
proof (cases "tier_body env inp t st")
  case (Pair fl st1)
  then show ?thesis
    using assms that by (cases fl) auto
qed

lemma run_tiers_trace:
  assumes "run_tiers env inp ts st = (exc, st')"
  shows "\<exists>new rs. s_tiers_completed st' = s_tiers_completed st @ new \<and>
           s_tier_results st' = s_tier_results st @ rs \<and>
           map Inr rs = map (tier_outcome env) new \<and>
           set new \<subseteq> set ts \<and>
           (sorted_wrt tier_lt ts \<longrightarrow> sorted_wrt tier_lt new) \<and>
           s_skip_tiers st \<subseteq> s_skip_tiers st'"
  using assms
proof (induction ts arbitrary: st)
  case Nil
  then show ?case by simp
next
  case (Cons t ts)
  show ?case
  proof (cases "t \<in> s_skip_tiers st")
    case True
    from Cons.prems show ?thesis
    proof (cases rule: run_tiers_Cons_cases)
      case (continue st1)
      from tier_body_skipped [OF True continue(1)] Cons.IH [OF continue(2)]
      show ?thesis by auto
    next
      case break
      from tier_body_skipped [OF True break(1)] show ?thesis by simp
    next
      case (raise e)
      from tier_body_skipped [OF True raise(1)] show ?thesis by simp
    qed
  next
    case False
    show ?thesis
    proof (cases "tier_outcome env t")
      case (Inl e)
      from Cons.prems show ?thesis
      proof (cases rule: run_tiers_Cons_cases)
        case (continue st1)
        from tier_body_raised [OF False Inl continue(1)] show ?thesis by simp
      next
        case break
        from tier_body_raised [OF False Inl break(1)] show ?thesis by simp
      next
        case (raise e')
        from tier_body_raised [OF False Inl raise(1)] show ?thesis
          unfolding tier_body_def using raise(1) False Inl
          by (auto simp: tier_body_def Let_def)
      qed
    next
      case (Inr r)
      have one: "\<exists>new rs. s_tiers_completed st1 = s_tiers_completed st @ new \<and>
           s_tier_results st1 = s_tier_results st @ rs \<and>
           map Inr rs = map (tier_outcome env) new \<and>
           set new \<subseteq> set (t # ts) \<and>
           (sorted_wrt tier_lt (t # ts) \<longrightarrow> sorted_wrt tier_lt new) \<and>
           s_skip_tiers st \<subseteq> s_skip_tiers st1"
        if "tier_body env inp t st = (fl, st1)" for fl st1
        using tier_body_executed [OF False Inr that] Inr
        by (intro exI [of _ "[t]"] exI [of _ "[r]"]) auto
      from Cons.prems show ?thesis
      proof (cases rule: run_tiers_Cons_cases)
        case (continue st1)
        from Cons.IH [OF continue(2)] obtain new rs where
          n: "s_tiers_completed st' = s_tiers_completed st1 @ new"
            "s_tier_results st' = s_tier_results st1 @ rs"
            "map Inr rs = map (tier_outcome env) new"
            "set new \<subseteq> set ts"
            "sorted_wrt tier_lt ts \<longrightarrow> sorted_wrt tier_lt new"
            "s_skip_tiers st1 \<subseteq> s_skip_tiers st'"
          by blast
        from tier_body_executed [OF False Inr continue(1)] n Inr
        show ?thesis
          by (intro exI [of _ "t # new"] exI [of _ "r # rs"]) auto
      next
        case break
        from one [OF break(1)] show ?thesis .
      next
        case (raise e)
        from one [OF raise(1)] show ?thesis .
      qed
    qed
  qed
qed


lemma run_tiers_skipped:
  assumes "run_tiers env inp ts st = (exc, st')"
    and "sorted_wrt tier_lt ts"
    and "t \<notin> set (s_tiers_completed st)"
    and "t \<in> s_skip_tiers st \<or>
         (\<exists>u\<in>set (s_tiers_completed st') - set (s_tiers_completed st).
            tier_lt u t \<and> t \<in> set (signals_during_tier env u))"
  shows "t \<notin> set (s_tiers_completed st')"
  using assms
proof (induction ts arbitrary: st)
  case Nil
  then show ?case by auto
next
  case (Cons h ts)
  from Cons.prems(2) have sorted_ts: "sorted_wrt tier_lt ts" and h_lt: "\<forall>x\<in>set ts. tier_lt h x"
    by simp_all
  obtain fl st1 where body: "tier_body env inp h st = (fl, st1)"
    by (cases "tier_body env inp h st")
  have rest: "fl = Continue \<longrightarrow> run_tiers env inp ts st1 = (exc, st')"
    and stop: "fl \<noteq> Continue \<longrightarrow> st' = st1"
    using Cons.prems(1) body by (cases fl; simp)+
  text \<open>What this iteration adds.\<close>
  have step: "(s_tiers_completed st1 = s_tiers_completed st \<and> s_skip_tiers st \<subseteq> s_skip_tiers st1) \<or>
      (h \<notin> s_skip_tiers st \<and> s_tiers_completed st1 = s_tiers_completed st @ [h] \<and>
       s_skip_tiers st1 = s_skip_tiers st \<union> set (signals_during_tier env h))"
  proof (cases "h \<in> s_skip_tiers st")
    case True
    from tier_body_skipped [OF True body] show ?thesis by simp
  next
    case False
    show ?thesis
    proof (cases "tier_outcome env h")
      case (Inl e)
      from tier_body_raised [OF False Inl body] body False Inl show ?thesis
        by (auto simp: tier_body_def Let_def)
    next
      case (Inr r)
      from tier_body_executed [OF False Inr body] False show ?thesis by simp
    qed
  qed
  text \<open>The tier is in the skip set after this iteration, and still not completed.\<close>
  have later: "set (s_tiers_completed st') - set (s_tiers_completed st1) \<subseteq> set ts"
    if "fl = Continue"
  proof -
    from rest that have "run_tiers env inp ts st1 = (exc, st')" by simp
    from run_tiers_trace [OF this] show ?thesis by auto
  qed
  have not_h: "t \<noteq> h" if "h \<notin> s_skip_tiers st"
    "s_tiers_completed st1 = s_tiers_completed st @ [h]"
  proof
    assume eq: "t = h"
    from Cons.prems(4) that(1) eq obtain u where
      u: "u \<in> set (s_tiers_completed st')" "u \<notin> set (s_tiers_completed st)" "tier_lt u h"
      by auto
    have "u \<noteq> h" using u(3) by (auto simp: tier_lt_def)
    with u that(2) have "u \<notin> set (s_tiers_completed st1)" by simp
    moreover have "fl = Continue"
      using stop u(1) \<open>u \<notin> set (s_tiers_completed st1)\<close> by auto
    ultimately have "u \<in> set ts" using later u(1) by auto
    with h_lt have "tier_lt h u" by simp
    with u(3) show False by (auto simp: tier_lt_def)
  qed
  have t1: "t \<notin> set (s_tiers_completed st1)"
    using step not_h Cons.prems(3) by auto
  show ?case
  proof (cases "fl = Continue")
    case False
    with stop t1 show ?thesis by simp
  next
    case True
    with rest have run: "run_tiers env inp ts st1 = (exc, st')" by simp
    have "t \<in> s_skip_tiers st1 \<or>
         (\<exists>u\<in>set (s_tiers_completed st') - set (s_tiers_completed st1).
            tier_lt u t \<and> t \<in> set (signals_during_tier env u))"
    proof (cases "t \<in> s_skip_tiers st")
      case True
      with step show ?thesis by auto
    next
      case False
      with Cons.prems(4) obtain u where
        u: "u \<in> set (s_tiers_completed st')" "u \<notin> set (s_tiers_completed st)" "tier_lt u t"
          "t \<in> set (signals_during_tier env u)"
        by auto
      show ?thesis
      proof (cases "u \<in> set (s_tiers_completed st1)")
        case True
        with u(2) step have "u = h" "s_skip_tiers st1 = s_skip_tiers st \<union> set (signals_during_tier env h)"
          by auto
        with u(4) show ?thesis by simp
      next
        case False
        with u show ?thesis by auto
      qed
    qed
    from Cons.IH [OF run sorted_ts t1 this] show ?thesis .
  qed
qed

lemma remaining_after_remove:
  assumes "distinct (h # ts)" and "set (h # ts) \<subseteq> set rem"
  shows "set ts \<subseteq> set (remove1 h rem)"
proof
  fix x
  assume x: "x \<in> set ts"
  with assms have "x \<noteq> h" "x \<in> set rem" by auto
  then show "x \<in> set (remove1 h rem)" by (simp add: in_set_remove1)
qed

lemma run_tiers_fail_fast:
  assumes "run_tiers env inp ts st = (exc, st')"
    and "fail_fast inp" and "distinct ts" and "set ts \<subseteq> set (s_tiers_remaining st)"
    and "activity_results env = AsInstance"
  shows "\<exists>new rs. s_tiers_completed st' = s_tiers_completed st @ new \<and>
           s_tier_results st' = s_tier_results st @ rs \<and>
           length rs = length new \<and>
           (\<forall>r\<in>set (butlast rs). passed r) \<and>
           (rs \<noteq> [] \<and> \<not> passed (last rs) \<longrightarrow>
              exc = None \<and> s_stopped_early st' \<and>
              s_stop_reason st' = Some (failed_message (last new) (tier_name (last rs))))"
  using assms
proof (induction ts arbitrary: st)
  case Nil
  then show ?case by simp
next
  case (Cons h ts)
  have h_rem: "h \<in> set (s_tiers_remaining st)"
    using Cons.prems(4) by simp
  have d: "distinct ts"
    using Cons.prems(3) by simp
  have sub: "set ts \<subseteq> set (remove1 h (s_tiers_remaining st))"
    using remaining_after_remove [OF Cons.prems(3) Cons.prems(4)] .
  obtain fl st1 where body: "tier_body env inp h st = (fl, st1)"
    by (cases "tier_body env inp h st")
  have rest: "fl = Continue \<longrightarrow> run_tiers env inp ts st1 = (exc, st')"
    and stop: "fl \<noteq> Continue \<longrightarrow> st' = st1"
    and brk: "fl = Break \<longrightarrow> exc = None"
    using Cons.prems(1) body by (cases fl; simp)+
  show ?case
  proof (cases "h \<in> s_skip_tiers st")
    case True
    from tier_body_skipped [OF True body] h_rem have
      b: "s_tiers_completed st1 = s_tiers_completed st" "s_tier_results st1 = s_tier_results st"
        "fl = Continue" "s_tiers_remaining st1 = remove1 h (s_tiers_remaining st)"
      by simp_all
    from rest b(3) have run: "run_tiers env inp ts st1 = (exc, st')" by simp
    have sub1: "set ts \<subseteq> set (s_tiers_remaining st1)"
      using sub b(4) by simp
    from Cons.IH [OF run Cons.prems(2) d sub1 Cons.prems(5)] show ?thesis
      unfolding b(1,2) .
  next
    case False
    show ?thesis
    proof (cases "tier_outcome env h")
      case (Inl e)
      from tier_body_raised [OF False Inl body] stop have
        "s_tiers_completed st' = s_tiers_completed st @ []"
        "s_tier_results st' = s_tier_results st @ []"
        by simp_all
      then show ?thesis
        by (intro exI [of _ "[]"]) simp
    next
      case (Inr r)
      show ?thesis
      proof (cases "passed r")
        case np: False
        from tier_body_executed [OF False Inr body] h_rem Cons.prems(2,5) np have
          b: "s_tiers_completed st1 = s_tiers_completed st @ [h]"
            "s_tier_results st1 = s_tier_results st @ [r]"
            "fl = Break" "s_stopped_early st1"
            "s_stop_reason st1 = Some (failed_message h (tier_name r))"
          by simp_all
        from b(3) stop brk have "st' = st1" "exc = None"
          by simp_all
        with b np show ?thesis
          by (intro exI [of _ "[h]"] exI [of _ "[r]"]) simp
      next
        case True
        from tier_body_executed [OF False Inr body] h_rem Cons.prems(2,5) True have
          b: "s_tiers_completed st1 = s_tiers_completed st @ [h]"
            "s_tier_results st1 = s_tier_results st @ [r]"
            "s_tiers_remaining st1 = remove1 h (s_tiers_remaining st)"
            "fl = Continue"
          by simp_all
        from b(4) rest have run: "run_tiers env inp ts st1 = (exc, st')" by simp
        have sub1: "set ts \<subseteq> set (s_tiers_remaining st1)"
          using sub b(3) by simp
        from Cons.IH [OF run Cons.prems(2) d sub1 Cons.prems(5)] obtain new rs where
          n: "s_tiers_completed st' = s_tiers_completed st1 @ new"
            "s_tier_results st' = s_tier_results st1 @ rs"
            "length rs = length new"
            "\<forall>r\<in>set (butlast rs). passed r"
            "rs \<noteq> [] \<and> \<not> passed (last rs) \<longrightarrow>
               exc = None \<and> s_stopped_early st' \<and>
               s_stop_reason st' = Some (failed_message (last new) (tier_name (last rs)))"
          by blast
        have ne: "rs \<noteq> [] \<longrightarrow> new \<noteq> []"
          using n(3) by auto
        have bl: "\<forall>x\<in>set (butlast (r # rs)). passed x"
          using n(4) True by (cases rs) auto
        have la: "(r # rs) \<noteq> [] \<and> \<not> passed (last (r # rs)) \<longrightarrow>
               exc = None \<and> s_stopped_early st' \<and>
               s_stop_reason st' = Some (failed_message (last (h # new)) (tier_name (last (r # rs))))"
          using n(5) True ne by (cases "rs = []") auto
        have "s_tiers_completed st' = s_tiers_completed st @ (h # new)"
          "s_tier_results st' = s_tier_results st @ (r # rs)"
          "length (r # rs) = length (h # new)"
          using n(1,2,3) b(1,2) by simp_all
        with bl la show ?thesis
          by blast
      qed
    qed
  qed
qed

lemma run_tiers_all_skipped:
  assumes "set ts \<subseteq> s_skip_tiers st" and "distinct ts"
    and "set ts \<subseteq> set (s_tiers_remaining st)"
  shows "\<exists>st'. run_tiers env inp ts st = (None, st') \<and>
           s_tiers_completed st' = s_tiers_completed st \<and>
           s_tier_results st' = s_tier_results st \<and>
           s_stopped_early st' = s_stopped_early st \<and>
           s_stop_reason st' = s_stop_reason st"
  using assms
proof (induction ts arbitrary: st)
  case Nil
  then show ?case by simp
next
  case (Cons h ts)
  have h_skip: "h \<in> s_skip_tiers st" and h_rem: "h \<in> set (s_tiers_remaining st)"
    using Cons.prems by simp_all
  obtain fl st1 where body: "tier_body env inp h st = (fl, st1)"
    by (cases "tier_body env inp h st")
  from tier_body_skipped [OF h_skip body] h_rem have
    b: "s_tiers_completed st1 = s_tiers_completed st" "s_tier_results st1 = s_tier_results st"
      "s_skip_tiers st1 = s_skip_tiers st" "s_stopped_early st1 = s_stopped_early st"
      "s_stop_reason st1 = s_stop_reason st"
      "fl = Continue" "s_tiers_remaining st1 = remove1 h (s_tiers_remaining st)"
    by simp_all
  have "set ts \<subseteq> s_skip_tiers st1" "distinct ts" "set ts \<subseteq> set (s_tiers_remaining st1)"
    using Cons.prems(1,2) b(3,7) remaining_after_remove [OF Cons.prems(2) Cons.prems(3)] by simp_all
  from Cons.IH [OF this] obtain st' where
    "run_tiers env inp ts st1 = (None, st')" "s_tiers_completed st' = s_tiers_completed st1"
    "s_tier_results st' = s_tier_results st1" "s_stopped_early st' = s_stopped_early st1"
    "s_stop_reason st' = s_stop_reason st1"
    by blast
  with b(1,2,4,5,6) body show ?case by simp
qed

subsection \<open>A whole run\<close>

lemma all_tiers_sorted: "sorted_wrt tier_lt (filter P all_tiers)"
proof -
  have "sorted_wrt tier_lt all_tiers"
    by (simp add: all_tiers_def tier_lt_def)
  then show ?thesis
    by (rule sorted_wrt_filter)
qed

lemma all_tiers_distinct: "distinct (filter P all_tiers)"
  by (simp add: all_tiers_def)

lemma start_state_fields:
  "s_skip_tiers (start_state env inp) = set (signals_before_run env) \<union> set (skip_tiers inp)"
  "s_tier_results (start_state env inp) = []"
  "s_tiers_completed (start_state env inp) = []"
  "s_stopped_early (start_state env inp) = False"
  "s_stop_reason (start_state env inp) = None"
  "s_tiers_remaining (start_state env inp) =
     filter (\<lambda>t. tier_value t \<le> tier_value (max_tier inp) \<and>
                 t \<notin> set (signals_before_run env) \<union> set (skip_tiers inp)) all_tiers"
  by (simp_all add: start_state_def Let_def init_state_def)

lemma loop_state_fields:
  "s_skip_tiers (loop_state env inp) =
     set (signals_before_run env) \<union> set (skip_tiers inp) \<union> set (signals_during_load env)"
  "s_tier_results (loop_state env inp) = []"
  "s_tiers_completed (loop_state env inp) = []"
  "s_stopped_early (loop_state env inp) = False"
  "s_stop_reason (loop_state env inp) = None"
  "s_tiers_remaining (loop_state env inp) =
     filter (\<lambda>t. tier_value t \<le> tier_value (max_tier inp) \<and>
                 t \<notin> set (signals_before_run env) \<union> set (skip_tiers inp)) all_tiers"
  by (simp_all add: loop_state_def start_state_fields)

text \<open>The two ways through \<^verbatim>\<open>run\<close>: the load activity raises, or the loop runs.\<close>

lemma run_load_failed:
  assumes "load_rule_outcome env = Inl e"
  shows "run env inp =
     (failed_output e (loop_state env inp),
      (loop_state env inp)\<lparr>s_status := FAILED, s_error := Some e\<rparr>)"
  using assms by (simp add: run_def run_try_def Let_def loop_state_def)

lemma run_loaded:
  assumes "load_rule_outcome env = Inr u"
    and "run_tiers env inp (s_tiers_remaining (loop_state env inp)) (loop_state env inp) = (exc, st')"
  shows "run env inp =
     (case exc of
        None \<Rightarrow>
          (case compute_final_results (activity_results env) st' of
             Inr out \<Rightarrow> (out, st'\<lparr>s_status := COMPLETED, s_current_tier := None\<rparr>)
           | Inl e \<Rightarrow> (failed_output e st', st'\<lparr>s_status := FAILED, s_error := Some e\<rparr>))
      | Some e \<Rightarrow> (failed_output e st', st'\<lparr>s_status := FAILED, s_error := Some e\<rparr>))"
  using assms by (simp add: run_def run_try_def Let_def loop_state_def split: option.splits)

text \<open>A run ends in one of two ways: with the completed output of the final state, or
  with the failure output for some error message.\<close>

lemma run_cases:
  assumes "run env inp = (out, st)"
  obtains (completed) st' where "out = completed_output st'"
      "st = st'\<lparr>s_status := COMPLETED, s_current_tier := None\<rparr>"
      "activity_results env = AsInstance \<or> s_tier_results st' = []"
    | (failed) e st' where "out = failed_output e st'"
      "st = st'\<lparr>s_status := FAILED, s_error := Some e\<rparr>"
proof (cases "run_try env inp (start_state env inp)")
  case (Pair exc st')
  show ?thesis
  proof (cases exc)
    case (Some e)
    with Pair assms have "out = failed_output e st'"
      "st = st'\<lparr>s_status := FAILED, s_error := Some e\<rparr>"
      by (simp_all add: run_def)
    then show ?thesis by (rule failed)
  next
    case None
    show ?thesis
    proof (cases "compute_final_results (activity_results env) st'")
      case (Inl e)
      with Pair None assms have "out = failed_output e st'"
        "st = st'\<lparr>s_status := FAILED, s_error := Some e\<rparr>"
        by (simp_all add: run_def)
      then show ?thesis by (rule failed)
    next
      case (Inr out')
      from compute_final_results_Inr [OF Inr] have o: "out' = completed_output st'" .
      have shape: "activity_results env = AsInstance \<or> s_tier_results st' = []"
      proof (rule ccontr)
        assume "\<not> ?thesis"
        then have "activity_results env = AsDict" "s_tier_results st' \<noteq> []"
          by (cases "activity_results env"; simp)+
        with compute_final_results_dict [of st'] Inr show False by simp
      qed
      from Pair None Inr o assms have "out = completed_output st'"
        "st = st'\<lparr>s_status := COMPLETED, s_current_tier := None\<rparr>"
        by (simp_all add: run_def)
      then show ?thesis using shape by (rule completed)
    qed
  qed
qed

text \<open>The trace of a whole run.\<close>

lemma run_trace:
  assumes "run env inp = (out, st)"
  shows "map Inr (tier_results out) = map (tier_outcome env) (s_tiers_completed st) \<and>
         sorted_wrt tier_lt (s_tiers_completed st) \<and>
         tier_results out = s_tier_results st \<and>
         (status out = COMPLETED \<or> status out = FAILED) \<and>
         (status out = COMPLETED \<longrightarrow> out = completed_output st) \<and>
         (status out = FAILED \<longrightarrow> overall_score out = 0 \<and> \<not> overall_passed out)"
proof (cases "load_rule_outcome env")
  case (Inl e)
  from run_load_failed [OF Inl, of inp] assms show ?thesis
    by (auto simp: failed_output_def loop_state_fields)
next
  case (Inr u)
  obtain exc st' where loop:
    "run_tiers env inp (s_tiers_remaining (loop_state env inp)) (loop_state env inp) = (exc, st')"
    by (cases "run_tiers env inp (s_tiers_remaining (loop_state env inp)) (loop_state env inp)")
  from run_tiers_trace [OF loop] obtain new rs where
    n: "s_tiers_completed st' = new" "s_tier_results st' = rs"
      "map Inr rs = map (tier_outcome env) new"
      "sorted_wrt tier_lt (s_tiers_remaining (loop_state env inp)) \<longrightarrow> sorted_wrt tier_lt new"
    by (auto simp: loop_state_fields)
  have "sorted_wrt tier_lt new"
    using n(4) all_tiers_sorted by (simp add: loop_state_fields)
  with n run_loaded [OF Inr loop] assms show ?thesis
    by (cases exc; cases "compute_final_results (activity_results env) st'")
      (auto simp: failed_output_def completed_output_def dest: compute_final_results_Inr)
qed

lemma failing_result_is_last:
  assumes m: "map Inr rs = map f new" and t: "t \<in> set new" and f: "f t = Inr r"
    and np: "\<not> passed r" and bl: "\<forall>x\<in>set (butlast rs). passed x"
  shows "new \<noteq> [] \<and> last new = t \<and> rs \<noteq> [] \<and> last rs = r"
proof -
  from m have len: "length rs = length new"
    by (rule map_eq_imp_length_eq)
  from t obtain i where i: "i < length new" "new ! i = t"
    by (auto simp: in_set_conv_nth)
  from m i len have "Inr (rs ! i) = f (new ! i)"
    by (metis nth_map)
  with i f have ri: "rs ! i = r" by simp
  have "\<not> i < length rs - 1"
  proof
    assume "i < length rs - 1"
    then have "butlast rs ! i = rs ! i" "i < length (butlast rs)"
      by (simp_all add: nth_butlast)
    then have "rs ! i \<in> set (butlast rs)"
      by (metis nth_mem)
    with bl ri np show False by simp
  qed
  with i len have il: "i = length rs - 1" "rs \<noteq> []" "new \<noteq> []"
    by auto
  then show ?thesis
    using ri i len by (simp add: last_conv_nth)
qed

lemma sorted_last_greatest:
  assumes "sorted_wrt tier_lt new" and "new \<noteq> []"
  shows "\<forall>u\<in>set (butlast new). tier_value u < tier_value (last new)"
proof -
  from assms(2) have "new = butlast new @ [last new]" by simp
  with assms(1) have "sorted_wrt tier_lt (butlast new @ [last new])" by simp
  then show ?thesis
    unfolding sorted_wrt_append by (simp add: tier_lt_def)
qed

text \<open>
  What lines 421-424 are written to do, and do when the tier results are instances of
  \<^verbatim>\<open>TierResult\<close>: with \<^verbatim>\<open>fail_fast\<close> set, a tier whose result has \<^verbatim>\<open>passed = false\<close> is the
  last one executed, and the run completes with \<^verbatim>\<open>stopped_early\<close> set and a \<^verbatim>\<open>stop_reason\<close>
  that names the tier.
\<close>

lemma fail_fast_given_instances:
  assumes ff: "fail_fast inp"
    and inst: "activity_results env = AsInstance"
    and run: "run env inp = (out, st)"
    and t: "t \<in> set (s_tiers_completed st)"
    and outcome: "tier_outcome env t = Inr r"
    and np: "\<not> passed r"
  shows "status out = COMPLETED \<and> stopped_early out \<and>
         stop_reason out =
           Some (''Tier '' @ [digit_char (tier_value t)] @ '' ('' @ tier_name r @ '') failed'') \<and>
         map Inr (tier_results out) = map (tier_outcome env) (s_tiers_completed st) \<and>
         last (s_tiers_completed st) = t \<and> last (tier_results out) = r \<and>
         (\<forall>u\<in>set (butlast (s_tiers_completed st)). tier_value u < tier_value t) \<and>
         (\<forall>x\<in>set (butlast (tier_results out)). passed x) \<and>
         (t = SCHEMA \<longrightarrow> tier_results out = [r])"
proof (cases "load_rule_outcome env")
  case (Inl e)
  from run_load_failed [OF Inl, of inp] run t show ?thesis
    by (auto simp: loop_state_fields)
next
  case (Inr u)
  let ?st0 = "loop_state env inp"
  let ?ts = "s_tiers_remaining ?st0"
  obtain exc st' where loop: "run_tiers env inp ?ts ?st0 = (exc, st')"
    by (cases "run_tiers env inp ?ts ?st0")
  have d: "distinct ?ts" and s: "sorted_wrt tier_lt ?ts"
    by (simp_all add: loop_state_fields all_tiers_distinct all_tiers_sorted)
  from run_tiers_trace [OF loop] s obtain new rs where
    n: "s_tiers_completed st' = new" "s_tier_results st' = rs"
      "map Inr rs = map (tier_outcome env) new" "sorted_wrt tier_lt new"
    by (auto simp: loop_state_fields)
  from run_tiers_fail_fast [OF loop ff d _ inst] n(1,2) have
    f: "\<forall>x\<in>set (butlast rs). passed x"
      "rs \<noteq> [] \<and> \<not> passed (last rs) \<longrightarrow>
         exc = None \<and> s_stopped_early st' \<and>
         s_stop_reason st' = Some (failed_message (last new) (tier_name (last rs)))"
    by (auto simp: loop_state_fields)
  have st: "s_tiers_completed st = new"
    using run_loaded [OF Inr loop] run n(1) inst
    by (cases exc) (auto simp: compute_final_results_instance)
  with t have tn: "t \<in> set new" by simp
  from failing_result_is_last [OF n(3) tn outcome np f(1)] have
    l: "new \<noteq> []" "last new = t" "rs \<noteq> []" "last rs = r"
    by simp_all
  with f(2) np have e: "exc = None" "s_stopped_early st'"
    "s_stop_reason st' = Some (failed_message t (tier_name r))"
    by simp_all
  from run_loaded [OF Inr loop] run e(1) inst have
    out: "out = completed_output st'"
    by (simp add: compute_final_results_instance)
  have before: "\<forall>u\<in>set (butlast new). tier_value u < tier_value t"
    using sorted_last_greatest [OF n(4) l(1)] l(2) by simp
  have schema: "rs = [r]" if "t = SCHEMA"
  proof -
    from before that have "butlast new = []"
      by (cases "butlast new") auto
    with l(1) have "length new = 1"
      by (cases new) (auto split: if_splits)
    with n(3) have "length rs = 1"
      using map_eq_imp_length_eq by fastforce
    with l(4) show ?thesis
      by (cases rs) auto
  qed
  show ?thesis
    unfolding out st using n e l f(1) before schema
    by (simp add: completed_output_def failed_message_def)
qed

text \<open>
  With the results as they arrive (dicts): under \<^verbatim>\<open>fail_fast\<close> the first executed tier
  is the only one, whatever its verdict, and the run ends failed on the attribute read of
  line 421; without \<^verbatim>\<open>fail_fast\<close> every run that executed a tier ends failed in the final
  computation.
\<close>

lemma run_tiers_fail_fast_dict:
  assumes "run_tiers env inp ts st = (exc, st')"
    and "fail_fast inp" and "distinct ts" and "set ts \<subseteq> set (s_tiers_remaining st)"
    and "activity_results env = AsDict"
  shows "(s_tiers_completed st' = s_tiers_completed st \<and> s_tier_results st' = s_tier_results st) \<or>
         (\<exists>t r. t \<in> set ts \<and> tier_outcome env t = Inr r \<and>
            s_tiers_completed st' = s_tiers_completed st @ [t] \<and>
            s_tier_results st' = s_tier_results st @ [r] \<and>
            exc = Some (attribute_error ''passed''))"
  using assms
proof (induction ts arbitrary: st)
  case Nil
  then show ?case by simp
next
  case (Cons h ts)
  have h_rem: "h \<in> set (s_tiers_remaining st)"
    using Cons.prems(4) by simp
  have d: "distinct ts"
    using Cons.prems(3) by simp
  have sub: "set ts \<subseteq> set (remove1 h (s_tiers_remaining st))"
    using remaining_after_remove [OF Cons.prems(3) Cons.prems(4)] .
  obtain fl st1 where body: "tier_body env inp h st = (fl, st1)"
    by (cases "tier_body env inp h st")
  have rest: "fl = Continue \<longrightarrow> run_tiers env inp ts st1 = (exc, st')"
    and stop: "fl \<noteq> Continue \<longrightarrow> st' = st1"
    and raised: "\<And>e. fl = Raise e \<Longrightarrow> exc = Some e"
    using Cons.prems(1) body by (cases fl; simp)+
  show ?case
  proof (cases "h \<in> s_skip_tiers st")
    case True
    from tier_body_skipped [OF True body] h_rem have
      b: "s_tiers_completed st1 = s_tiers_completed st" "s_tier_results st1 = s_tier_results st"
        "fl = Continue" "s_tiers_remaining st1 = remove1 h (s_tiers_remaining st)"
      by simp_all
    from rest b(3) have run: "run_tiers env inp ts st1 = (exc, st')" by simp
    have sub1: "set ts \<subseteq> set (s_tiers_remaining st1)"
      using sub b(4) by simp
    from Cons.IH [OF run Cons.prems(2) d sub1 Cons.prems(5)] show ?thesis
      unfolding b(1,2) by auto
  next
    case False
    show ?thesis
    proof (cases "tier_outcome env h")
      case (Inl e)
      from tier_body_raised [OF False Inl body] stop show ?thesis
        by simp
    next
      case (Inr r)
      from tier_body_executed [OF False Inr body] h_rem Cons.prems(2,5) have
        b: "s_tiers_completed st1 = s_tiers_completed st @ [h]"
          "s_tier_results st1 = s_tier_results st @ [r]"
          "fl = Raise (attribute_error ''passed'')"
        by simp_all
      from b(3) stop raised have "st' = st1" "exc = Some (attribute_error ''passed'')"
        by simp_all
      with b Inr show ?thesis
        by auto
    qed
  qed
qed

lemma fail_fast_given_dicts:
  assumes ff: "fail_fast inp"
    and dict: "activity_results env = AsDict"
    and run: "run env inp = (out, st)"
    and t: "t \<in> set (s_tiers_completed st)"
  shows "status out = FAILED \<and> s_tiers_completed st = [t] \<and>
         map Inr (tier_results out) = [tier_outcome env t] \<and>
         stop_reason out = Some (attribute_error ''passed'') \<and>
         error out = Some (attribute_error ''passed'')"
proof (cases "load_rule_outcome env")
  case (Inl e)
  from run_load_failed [OF Inl, of inp] run t show ?thesis
    by (auto simp: loop_state_fields)
next
  case (Inr u)
  let ?st0 = "loop_state env inp"
  let ?ts = "s_tiers_remaining ?st0"
  obtain exc st' where loop: "run_tiers env inp ?ts ?st0 = (exc, st')"
    by (cases "run_tiers env inp ?ts ?st0")
  have d: "distinct ?ts"
    by (simp add: loop_state_fields all_tiers_distinct)
  have st: "s_tiers_completed st = s_tiers_completed st'"
    using run_loaded [OF Inr loop] run
    by (cases exc; cases "compute_final_results (activity_results env) st'") auto
  from run_tiers_fail_fast_dict [OF loop ff d _ dict] t st obtain u r where
    e: "tier_outcome env u = Inr r" "s_tiers_completed st' = [u]" "s_tier_results st' = [r]"
      "exc = Some (attribute_error ''passed'')"
    by (auto simp: loop_state_fields)
  from e(2) t st have "u = t" by simp
  with run_loaded [OF Inr loop] run e st show ?thesis
    by (auto simp: failed_output_def)
qed

lemma dict_results_fail_run:
  assumes dict: "activity_results env = AsDict"
    and run: "run env inp = (out, st)"
    and executed: "tier_results out \<noteq> []"
  shows "status out = FAILED \<and> highest_tier_passed out = None \<and> overall_score out = 0 \<and>
         \<not> overall_passed out \<and> stopped_early out \<and> stop_reason out = error out"
  using run
proof (cases rule: run_cases)
  case (completed st')
  with dict executed show ?thesis
    by (simp add: completed_output_def)
next
  case (failed e st')
  then show ?thesis
    by (simp add: failed_output_def)
qed

text \<open>
  Claim C2. A tier that is in the skip set when its turn arrives (it is pre-declared in
  the input, or its signal was handled before the run, while the rule was loaded, or
  while an earlier tier was executed) is not executed: it is not among the completed
  tiers, the tier results are exactly the results of the completed tiers (none of them
  is labelled with the skipped tier when every activity labels its result with its own
  tier), and the overall score and verdict are the mean and the conjunction over those
  results (0.0 and false when the run failed).
\<close>

theorem skipped_tier_not_executed:
  assumes run: "run env inp = (out, st)"
    and skipped:
      "t \<in> set (skip_tiers inp) \<union> set (signals_before_run env) \<union> set (signals_during_load env) \<or>
       (\<exists>u\<in>set (s_tiers_completed st).
          tier_value u < tier_value t \<and> t \<in> set (signals_during_tier env u))"
  shows "t \<notin> set (s_tiers_completed st) \<and>
         map Inr (tier_results out) = map (tier_outcome env) (s_tiers_completed st) \<and>
         ((\<forall>u r. tier_outcome env u = Inr r \<longrightarrow> tier r = u) \<longrightarrow>
            (\<forall>r\<in>set (tier_results out). tier r \<noteq> t)) \<and>
         (status out = COMPLETED \<longrightarrow>
            overall_score out =
              (if tier_results out = [] then 0
               else (\<Sum>r\<leftarrow>tier_results out. tier_score r) / real (length (tier_results out))) \<and>
            overall_passed out = (\<forall>r\<in>set (tier_results out). passed r)) \<and>
         (status out \<noteq> COMPLETED \<longrightarrow> overall_score out = 0 \<and> \<not> overall_passed out)"
proof -
  have notin: "t \<notin> set (s_tiers_completed st)"
  proof (cases "load_rule_outcome env")
    case (Inl e)
    from run_load_failed [OF Inl, of inp] run show ?thesis
      by (auto simp: loop_state_fields)
  next
    case (Inr u)
    let ?st0 = "loop_state env inp"
    let ?ts = "s_tiers_remaining ?st0"
    obtain exc st' where loop: "run_tiers env inp ?ts ?st0 = (exc, st')"
      by (cases "run_tiers env inp ?ts ?st0")
    have s: "sorted_wrt tier_lt ?ts"
      by (simp add: loop_state_fields all_tiers_sorted)
    have st: "s_tiers_completed st = s_tiers_completed st'"
      using run_loaded [OF Inr loop] run
      by (cases exc; cases "compute_final_results (activity_results env) st'") auto
    have "t \<in> s_skip_tiers ?st0 \<or>
         (\<exists>u\<in>set (s_tiers_completed st') - set (s_tiers_completed ?st0).
            tier_lt u t \<and> t \<in> set (signals_during_tier env u))"
      using skipped unfolding st by (auto simp: loop_state_fields tier_lt_def)
    from run_tiers_skipped [OF loop s _ this] show ?thesis
      unfolding st by (simp add: loop_state_fields)
  qed
  from run_trace [OF run] have
    tr: "map Inr (tier_results out) = map (tier_outcome env) (s_tiers_completed st)"
      "status out = COMPLETED \<or> status out = FAILED"
      "status out = COMPLETED \<longrightarrow> out = completed_output st"
      "status out = FAILED \<longrightarrow> overall_score out = 0 \<and> \<not> overall_passed out"
      "tier_results out = s_tier_results st"
    by blast+
  have labelled: "tier r \<noteq> t"
    if own: "\<forall>u r. tier_outcome env u = Inr r \<longrightarrow> tier r = u" and r: "r \<in> set (tier_results out)"
    for r
  proof -
    from r obtain i where i: "i < length (tier_results out)" "tier_results out ! i = r"
      by (auto simp: in_set_conv_nth)
    from tr(1) have len: "length (tier_results out) = length (s_tiers_completed st)"
      by (rule map_eq_imp_length_eq)
    from tr(1) i len have "Inr r = tier_outcome env (s_tiers_completed st ! i)"
      by (metis nth_map)
    with own have "tier r = s_tiers_completed st ! i" by simp
    moreover have "s_tiers_completed st ! i \<in> set (s_tiers_completed st)"
      using i len by simp
    ultimately show ?thesis using notin by auto
  qed
  have completed: "overall_score out =
              (if tier_results out = [] then 0
               else (\<Sum>r\<leftarrow>tier_results out. tier_score r) / real (length (tier_results out))) \<and>
            overall_passed out = (\<forall>r\<in>set (tier_results out). passed r)"
    if "status out = COMPLETED"
  proof -
    from tr(3) that have "out = completed_output st" by simp
    then show ?thesis
      by (simp add: completed_output_def list_all_iff)
  qed
  have failed: "overall_score out = 0 \<and> \<not> overall_passed out" if "status out \<noteq> COMPLETED"
    using tr(2,4) that by blast
  from notin tr(1) labelled completed failed show ?thesis
    by blast
qed

text \<open>
  Claim C10. If the rule loads and every tier up to \<^verbatim>\<open>max_tier\<close> is skipped, the run
  completes with no tier result, overall score 0.0, overall verdict true, no highest
  passed tier and \<^verbatim>\<open>stopped_early\<close> false.
\<close>

theorem all_tiers_skipped_completes:
  assumes load: "load_rule_outcome env = Inr u"
    and all_skipped:
      "\<forall>t. tier_value t \<le> tier_value (max_tier inp) \<longrightarrow>
         t \<in> set (skip_tiers inp) \<union> set (signals_before_run env) \<union> set (signals_during_load env)"
  shows "fst (run env inp) =
     \<lparr>status = COMPLETED, tier_results = [], highest_tier_passed = None, overall_score = 0.0,
      overall_passed = True, stopped_early = False, stop_reason = None, error = None\<rparr>"
proof -
  let ?st0 = "loop_state env inp"
  let ?ts = "s_tiers_remaining ?st0"
  have "set ?ts \<subseteq> s_skip_tiers ?st0" "distinct ?ts" "set ?ts \<subseteq> set (s_tiers_remaining ?st0)"
    using all_skipped by (auto simp: loop_state_fields all_tiers_distinct)
  from run_tiers_all_skipped [OF this, of env inp] obtain st' where
    l: "run_tiers env inp ?ts ?st0 = (None, st')" "s_tier_results st' = []"
      "s_stopped_early st' = False" "s_stop_reason st' = None"
    by (auto simp: loop_state_fields)
  from run_loaded [OF load l(1)] compute_final_results_empty [OF l(2), of "activity_results env"]
    l(2,3,4)
  show ?thesis
    by (simp add: completed_output_def highest_passed_def)
qed

subsection \<open>The example runs evaluated\<close>

lemmas run_simps = run_def run_try_def start_state_def init_state_def deliver_def skip_tier_def
  all_tiers_def tier_body_def list_remove_def Let_def compute_final_results_def failed_output_def
  failed_message_def digit_char_def example_result_def example_input_def

lemma run_schema_fails_given_instances:
  "run (example_env_schema_fails AsInstance) (example_input CROSS_RULE [] True) =
    (\<lparr>status = COMPLETED, tier_results = [example_result SCHEMA False],
      highest_tier_passed = None, overall_score = 0, overall_passed = False,
      stopped_early = True, stop_reason = Some ''Tier 0 (check) failed'', error = None\<rparr>,
     \<lparr>s_status = COMPLETED, s_current_tier = None,
      s_tier_results = [example_result SCHEMA False], s_tiers_completed = [SCHEMA],
      s_tiers_remaining = [LEXICAL, SEMANTIC, NLI, CROSS_RULE], s_skip_tiers = {},
      s_stopped_early = True, s_stop_reason = Some ''Tier 0 (check) failed'', s_error = None\<rparr>)"
  by (simp add: run_simps example_env_schema_fails_def)

lemma run_signal:
  "s_tiers_completed (snd (run (example_env_signal shape) (example_input CROSS_RULE [LEXICAL] False))) =
     [SCHEMA, NLI, CROSS_RULE]"
  by (cases shape) (simp_all add: run_simps example_env_signal_def)

lemma run_signal_score:
  "overall_score (fst (run (example_env_signal AsInstance) (example_input CROSS_RULE [LEXICAL] False))) = 1"
  "overall_score (fst (run (example_env_signal AsDict) (example_input CROSS_RULE [LEXICAL] False))) = 0"
  by (simp_all add: run_simps example_env_signal_def)

lemma run_load_signal:
  "s_tiers_completed (snd (run example_env_load_signal (example_input LEXICAL [SCHEMA] True))) = []"
  by (simp add: run_simps example_env_load_signal_def)

text \<open>
  Claim C1. The claim: with \<^verbatim>\<open>fail_fast\<close> set, the workflow stops at the first tier whose
  result has \<^verbatim>\<open>passed = false\<close>, with \<^verbatim>\<open>stopped_early\<close> set and a \<^verbatim>\<open>stop_reason\<close> naming the
  tier. The code at such an input: a run over tiers 0 to 4 with \<^verbatim>\<open>fail_fast\<close> set, in which
  the tier-0 activity returns \<^verbatim>\<open>passed = false\<close>. The result is appended and the tier
  recorded as completed; then \<^verbatim>\<open>result.passed\<close> raises on the dict, the handler of
  \<^verbatim>\<open>except Exception\<close> ends the run with status failed, and the stop reason is the message
  of the \<^verbatim>\<open>AttributeError\<close>, not the tier.
\<close>

theorem fail_fast_attribute_error:
  "fail_fast (example_input CROSS_RULE [] True) \<and>
   tier_outcome (example_env_schema_fails AsDict) SCHEMA = Inr (example_result SCHEMA False) \<and>
   \<not> passed (example_result SCHEMA False) \<and>
   run (example_env_schema_fails AsDict) (example_input CROSS_RULE [] True) =
    (\<lparr>status = FAILED, tier_results = [example_result SCHEMA False],
      highest_tier_passed = None, overall_score = 0, overall_passed = False,
      stopped_early = True,
      stop_reason = Some (quoted ''dict'' @ '' object has no attribute '' @ quoted ''passed''),
      error = Some (quoted ''dict'' @ '' object has no attribute '' @ quoted ''passed'')\<rparr>,
     \<lparr>s_status = FAILED, s_current_tier = Some SCHEMA,
      s_tier_results = [example_result SCHEMA False], s_tiers_completed = [SCHEMA],
      s_tiers_remaining = [LEXICAL, SEMANTIC, NLI, CROSS_RULE], s_skip_tiers = {},
      s_stopped_early = False, s_stop_reason = None,
      s_error = Some (quoted ''dict'' @ '' object has no attribute '' @ quoted ''passed'')\<rparr>) \<and>
   stop_reason (fst (run (example_env_schema_fails AsDict) (example_input CROSS_RULE [] True))) \<noteq>
     Some ''Tier 0 (check) failed''"
  by (simp add: run_simps example_env_schema_fails_def attribute_error_def quoted_def)

theorem skipped_tier_not_executed_witness:
  "LEXICAL \<in> set (skip_tiers (example_input CROSS_RULE [LEXICAL] False)) \<and>
   SEMANTIC \<in> set (signals_during_tier (example_env_signal AsDict) SCHEMA) \<and>
   SCHEMA \<in> set (s_tiers_completed
      (snd (run (example_env_signal AsDict) (example_input CROSS_RULE [LEXICAL] False)))) \<and>
   LEXICAL \<notin> set (s_tiers_completed
      (snd (run (example_env_signal AsDict) (example_input CROSS_RULE [LEXICAL] False)))) \<and>
   SEMANTIC \<notin> set (s_tiers_completed
      (snd (run (example_env_signal AsDict) (example_input CROSS_RULE [LEXICAL] False)))) \<and>
   overall_score (fst (run (example_env_signal AsDict) (example_input CROSS_RULE [LEXICAL] False))) = 0 \<and>
   LEXICAL \<notin> set (s_tiers_completed
      (snd (run (example_env_signal AsInstance) (example_input CROSS_RULE [LEXICAL] False)))) \<and>
   overall_score (fst (run (example_env_signal AsInstance) (example_input CROSS_RULE [LEXICAL] False))) = 1"
proof -
  let ?inp = "example_input CROSS_RULE [LEXICAL] False"
  let ?run = "run (example_env_signal AsDict) ?inp"
  let ?run' = "run (example_env_signal AsInstance) ?inp"
  have run: "?run = (fst ?run, snd ?run)" and run': "?run' = (fst ?run', snd ?run')"
    by simp_all
  have pre: "LEXICAL \<in> set (skip_tiers ?inp)"
    by (simp add: example_input_def)
  have sig: "SEMANTIC \<in> set (signals_during_tier (example_env_signal AsDict) SCHEMA)"
    by (simp add: example_env_signal_def)
  have ran: "SCHEMA \<in> set (s_tiers_completed (snd ?run))"
    by (simp add: run_signal)
  have h1: "LEXICAL \<in> set (skip_tiers ?inp) \<union> set (signals_before_run (example_env_signal shape)) \<union>
        set (signals_during_load (example_env_signal shape)) \<or>
      (\<exists>u\<in>set (s_tiers_completed (snd (run (example_env_signal shape) ?inp))).
          tier_value u < tier_value LEXICAL \<and>
          LEXICAL \<in> set (signals_during_tier (example_env_signal shape) u))" for shape
    using pre by simp
  have h2: "SEMANTIC \<in> set (skip_tiers ?inp) \<union> set (signals_before_run (example_env_signal AsDict)) \<union>
        set (signals_during_load (example_env_signal AsDict)) \<or>
      (\<exists>u\<in>set (s_tiers_completed (snd ?run)).
          tier_value u < tier_value SEMANTIC \<and>
          SEMANTIC \<in> set (signals_during_tier (example_env_signal AsDict) u))"
    using sig ran by (intro disjI2 bexI [of _ SCHEMA]) simp_all
  from skipped_tier_not_executed [OF run h1] skipped_tier_not_executed [OF run h2]
    skipped_tier_not_executed [OF run' h1]
    pre sig ran run_signal_score
  show ?thesis by simp
qed

theorem all_tiers_skipped_completes_witness:
  "load_rule_outcome example_env_load_signal = Inr () \<and>
   fst (run example_env_load_signal (example_input LEXICAL [SCHEMA] True)) =
     \<lparr>status = COMPLETED, tier_results = [], highest_tier_passed = None, overall_score = 0.0,
      overall_passed = True, stopped_early = False, stop_reason = None, error = None\<rparr>"
proof -
  have load: "load_rule_outcome example_env_load_signal = Inr ()"
    by (simp add: example_env_load_signal_def)
  have sk: "\<forall>t. tier_value t \<le> tier_value (max_tier (example_input LEXICAL [SCHEMA] True)) \<longrightarrow>
      t \<in> set (skip_tiers (example_input LEXICAL [SCHEMA] True)) \<union>
          set (signals_before_run example_env_load_signal) \<union>
          set (signals_during_load example_env_load_signal)"
  proof (intro allI impI)
    fix t
    assume "tier_value t \<le> tier_value (max_tier (example_input LEXICAL [SCHEMA] True))"
    then show "t \<in> set (skip_tiers (example_input LEXICAL [SCHEMA] True)) \<union>
          set (signals_before_run example_env_load_signal) \<union>
          set (signals_during_load example_env_load_signal)"
      by (cases t) (simp_all add: example_input_def example_env_load_signal_def)
  qed
  from all_tiers_skipped_completes [OF load sk] load show ?thesis
    by simp
qed

section \<open>Counterfactual activities (\<^verbatim>\<open>workflows/activities.py\<close>)\<close>

datatype ScenarioType =
    JURISDICTION_CHANGE | ENTITY_CHANGE | ACTIVITY_RESTRUCTURE | THRESHOLD | TEMPORAL
  | PROTOCOL_CHANGE | REGULATORY_CHANGE

text \<open>\<^verbatim>\<open>ScenarioType(value)\<close>: the member with that value, or \<^verbatim>\<open>ValueError\<close> with the message
  \<^verbatim>\<open>'value' is not a valid ScenarioType\<close>.\<close>

definition ScenarioType_of :: "string \<Rightarrow> string + ScenarioType" where
  "ScenarioType_of v =
     (case map_of
        [(''jurisdiction_change'', JURISDICTION_CHANGE), (''entity_change'', ENTITY_CHANGE),
         (''activity_restructure'', ACTIVITY_RESTRUCTURE), (''threshold'', THRESHOLD),
         (''temporal'', TEMPORAL), (''protocol_change'', PROTOCOL_CHANGE),
         (''regulatory_change'', REGULATORY_CHANGE)] v of
        Some t \<Rightarrow> Inr t
      | None \<Rightarrow> Inl (quoted v @ '' is not a valid ScenarioType''))"

text \<open>
  The decision engine, the rule loader and the \<^verbatim>\<open>Scenario\<close> class are outside the
  workflow package. \<open>engine\<close> stands for \<^verbatim>\<open>Scenario(**safe_facts)\<close> followed by
  \<^verbatim>\<open>DecisionEngine.evaluate(scenario, rule_id)\<close> on the rules loaded from disk: it returns
  an evaluation result or raises. Fact values are of an arbitrary type \<open>'v\<close>;
  \<open>is_container\<close> is \<^verbatim>\<open>isinstance(v, (list, dict))\<close>, \<open>str_of\<close> is \<^verbatim>\<open>str(v)\<close> and \<open>py_none\<close>
  is the value \<^verbatim>\<open>None\<close> that \<^verbatim>\<open>dict.get\<close> returns for a missing key. A fact dictionary is
  the list of its items in insertion order.
\<close>

record ('o, 't) evaluation =
  res_decision :: "string option"
  res_applicable :: bool
  res_obligations :: "'o list"
  res_trace :: "'t list"

record ('v, 'o, 't) collaborators =
  engine :: "(string \<times> 'v) list \<Rightarrow> string \<Rightarrow> string + ('o, 't) evaluation"
  is_container :: "'v \<Rightarrow> bool"
  str_of :: "'v \<Rightarrow> string"
  py_none :: 'v

record ('o, 't) ScenarioResult =
  scenario_id :: string
  scenario_type :: ScenarioType
  description :: string
  decision :: string
  applicable :: bool
  obligations :: "'o list"
  trace :: "'t list"
  differs_from_baseline :: bool
  key_differences :: "string list"

text \<open>\<^verbatim>\<open>result.decision or "unknown"\<close>, and \<^verbatim>\<open>result.decision\<close> inside an f-string.\<close>

definition or_unknown :: "string option \<Rightarrow> string" where
  "or_unknown d = (case d of None \<Rightarrow> ''unknown'' | Some s \<Rightarrow> if s = [] then ''unknown'' else s)"

definition format_decision :: "string option \<Rightarrow> string" where
  "format_decision d = (case d of None \<Rightarrow> ''None'' | Some s \<Rightarrow> s)"

text \<open>\<^verbatim>\<open>{**a, **b}\<close>: the keys of \<open>a\<close> in their order, with the values of \<open>b\<close> where it has
  the key, then the new keys of \<open>b\<close>.\<close>

definition dict_merge :: "(string \<times> 'v) list \<Rightarrow> (string \<times> 'v) list \<Rightarrow> (string \<times> 'v) list" where
  "dict_merge a b =
     map (\<lambda>(k, v). (k, case map_of b k of None \<Rightarrow> v | Some v' \<Rightarrow> v')) a @
     filter (\<lambda>(k, v). k \<notin> fst ` set a) b"

definition dict_get :: "('v, 'o, 't) collaborators \<Rightarrow> (string \<times> 'v) list \<Rightarrow> string \<Rightarrow> 'v" where
  "dict_get P d k = (case map_of d k of None \<Rightarrow> py_none P | Some v \<Rightarrow> v)"

definition safe_facts :: "('v, 'o, 't) collaborators \<Rightarrow> (string \<times> 'v) list \<Rightarrow> (string \<times> 'v) list" where
  "safe_facts P facts = filter (\<lambda>(k, v). \<not> is_container P v) facts"

definition evaluate_baseline_activity ::
    "('v, 'o, 't) collaborators \<Rightarrow> string \<Rightarrow> (string \<times> 'v) list \<Rightarrow> string + ('o, 't) ScenarioResult" where
  "evaluate_baseline_activity P rid facts =
     (case engine P (safe_facts P facts) rid of
        Inl e \<Rightarrow> Inl e
      | Inr res \<Rightarrow>
          Inr \<lparr>scenario_id = ''baseline'', scenario_type = THRESHOLD,
               description = ''Baseline scenario'', decision = or_unknown (res_decision res),
               applicable = res_applicable res, obligations = res_obligations res,
               trace = res_trace res, differs_from_baseline = False, key_differences = []\<rparr>)"

definition analyze_counterfactual_activity ::
    "('v, 'o, 't) collaborators \<Rightarrow> string \<Rightarrow> (string \<times> 'v) list \<Rightarrow> string \<Rightarrow> string \<Rightarrow> string \<Rightarrow>
       (string \<times> 'v) list \<Rightarrow> string \<Rightarrow> string + ('o, 't) ScenarioResult" where
  "analyze_counterfactual_activity P rid baseline_facts sid stype descr modified_facts
       baseline_decision =
     (let merged_facts = dict_merge baseline_facts modified_facts
      in case engine P (safe_facts P merged_facts) rid of
           Inl e \<Rightarrow> Inl e
         | Inr res \<Rightarrow>
             let differs = (res_decision res \<noteq> Some baseline_decision);
                 changed =
                   (if differs
                    then [''Decision changed from '' @ baseline_decision @ '' to '' @
                            format_decision (res_decision res)]
                    else []);
                 facts_changed =
                   concat (map (\<lambda>(key, new_val).
                      let old_val = dict_get P baseline_facts key
                      in if old_val \<noteq> new_val
                         then [key @ '': '' @ str_of P old_val @ '' -> '' @ str_of P new_val]
                         else []) modified_facts)
             in case ScenarioType_of stype of
                  Inl e \<Rightarrow> Inl e
                | Inr st \<Rightarrow>
                    Inr \<lparr>scenario_id = sid, scenario_type = st, description = descr,
                         decision = or_unknown (res_decision res),
                         applicable = res_applicable res, obligations = res_obligations res,
                         trace = res_trace res, differs_from_baseline = differs,
                         key_differences = changed @ facts_changed\<rparr>)"

text \<open>\<^verbatim>\<open>compute_delta_activity\<close>, on the two decision strings.\<close>

definition decision_changed :: "string \<Rightarrow> string \<Rightarrow> bool" where
  "decision_changed baseline_decision counterfactual_decision \<longleftrightarrow>
     baseline_decision \<noteq> counterfactual_decision"

text \<open>An engine for which the rule does not apply: no decision, no obligations.\<close>

definition example_collaborators :: "(string, string, string) collaborators" where
  "example_collaborators =
     \<lparr>engine = (\<lambda>facts rid.
         Inr \<lparr>res_decision = None, res_applicable = False, res_obligations = [], res_trace = []\<rparr>),
      is_container = (\<lambda>v. False), str_of = (\<lambda>v. v), py_none = ''None''\<rparr>"

definition example_deciding_collaborators :: "(string, string, string) collaborators" where
  "example_deciding_collaborators =
     \<lparr>engine = (\<lambda>facts rid.
         Inr \<lparr>res_decision = Some ''permitted'', res_applicable = True, res_obligations = [],
              res_trace = []\<rparr>),
      is_container = (\<lambda>v. False), str_of = (\<lambda>v. v), py_none = ''None''\<rparr>"


lemma dict_merge_empty: "dict_merge a [] = a"
  by (induction a) (auto simp: dict_merge_def)


text \<open>
  Claim C8. With \<^verbatim>\<open>modified_facts = {}\<close> and the baseline decision produced by
  \<^verbatim>\<open>evaluate_baseline_activity\<close> on the same rule and facts, the counterfactual result is
  to have \<^verbatim>\<open>differs_from_baseline = false\<close> and no key differences. The baseline activity
  reports a missing decision as \<^verbatim>\<open>"unknown"\<close>, while \<^verbatim>\<open>analyze_counterfactual_activity\<close>
  compares the raw \<^verbatim>\<open>result.decision\<close> with it: when the engine returns no decision, the
  same facts give \<^verbatim>\<open>differs_from_baseline = true\<close> and the key difference
  \<^verbatim>\<open>Decision changed from unknown to None\<close>, although both decision strings are
  \<^verbatim>\<open>"unknown"\<close> (and \<^verbatim>\<open>compute_delta_activity\<close> reports no change for them).
\<close>

theorem counterfactual_unknown_decision_differs:
  "evaluate_baseline_activity example_collaborators ''rule_a'' [(''amount'', ''5'')] =
     Inr \<lparr>scenario_id = ''baseline'', scenario_type = THRESHOLD,
          description = ''Baseline scenario'', decision = ''unknown'', applicable = False,
          obligations = [], trace = [], differs_from_baseline = False, key_differences = []\<rparr> \<and>
   analyze_counterfactual_activity example_collaborators ''rule_a'' [(''amount'', ''5'')]
       ''s1'' ''threshold'' ''no change'' [] ''unknown'' =
     Inr \<lparr>scenario_id = ''s1'', scenario_type = THRESHOLD, description = ''no change'',
          decision = ''unknown'', applicable = False, obligations = [], trace = [],
          differs_from_baseline = True,
          key_differences = [''Decision changed from unknown to None'']\<rparr> \<and>
   decision_changed ''unknown'' ''unknown'' = False"
  by (simp add: evaluate_baseline_activity_def analyze_counterfactual_activity_def
      example_collaborators_def or_unknown_def format_decision_def ScenarioType_of_def
      dict_merge_def safe_facts_def Let_def decision_changed_def)

text \<open>When the engine returns a non-empty decision, the unchanged scenario does not
  differ.\<close>

lemma counterfactual_no_change_known_decision:
  assumes "evaluate_baseline_activity P rid facts = Inr base"
    and "engine P (safe_facts P facts) rid = Inr res"
    and "res_decision res = Some d" and "d \<noteq> []"
    and "analyze_counterfactual_activity P rid facts sid stype descr [] (decision base) = Inr sr"
  shows "differs_from_baseline sr = False \<and> key_differences sr = []"
  using assms
  by (auto simp: evaluate_baseline_activity_def analyze_counterfactual_activity_def
      dict_merge_empty or_unknown_def Let_def split: sum.splits)

section \<open>\<^verbatim>\<open>DriftDetectionWorkflow\<close> and its drift check\<close>

record RuleDriftResult =
  drift_rule_id :: string
  has_drift :: bool
  drift_types :: "string list"
  details :: "string list"
  severity :: string

text \<open>The label, category and details of a Tier-0 \<^verbatim>\<open>ConsistencyEvidence\<close>.\<close>

record tier0_evidence =
  t0_label :: string
  t0_category :: string
  t0_details :: string

text \<open>
  The rule loader and the consistency engine are outside the workflow package:
  \<open>get_rule\<close> stands for loading the rule directory and \<^verbatim>\<open>loader.get_rule(rule_id)\<close>,
  \<open>verify_tier0\<close> for \<^verbatim>\<open>ConsistencyEngine().verify_rule(rule, tiers=[0]).evidence\<close>; either
  may raise. The \<^verbatim>\<open>last_verified\<close> and \<^verbatim>\<open>current_check\<close> time stamps are left out.
\<close>

record 'r drift_collaborators =
  get_rule :: "string \<Rightarrow> string + 'r option"
  verify_tier0 :: "'r \<Rightarrow> string + tier0_evidence list"

text \<open>The loop over the evidence, which appends to \<^verbatim>\<open>drift_types\<close> and \<^verbatim>\<open>details\<close>.\<close>

fun collect_drift :: "tier0_evidence list \<Rightarrow> string list \<times> string list \<Rightarrow> string list \<times> string list" where
  "collect_drift [] acc = acc"
| "collect_drift (ev # evs) (types, dets) =
     (if t0_label ev = ''fail'' then
        collect_drift evs (types @ [''schema_drift''],
                           dets @ [''Schema check failed: '' @ t0_details ev])
      else if t0_label ev = ''warning'' \<and> t0_category ev = ''source_exists'' then
        collect_drift evs (types @ [''reference_drift''],
                           dets @ [''Reference issue: '' @ t0_details ev])
      else collect_drift evs (types, dets))"

definition check_rule_drift_activity :: "'r drift_collaborators \<Rightarrow> string \<Rightarrow> string + RuleDriftResult" where
  "check_rule_drift_activity P rid =
     (case get_rule P rid of
        Inl e \<Rightarrow> Inl e
      | Inr None \<Rightarrow>
          Inr \<lparr>drift_rule_id = rid, has_drift = True, drift_types = [''rule_missing''],
               details = [''Rule no longer exists in rule data''], severity = ''critical''\<rparr>
      | Inr (Some r) \<Rightarrow>
          (case verify_tier0 P r of
             Inl e \<Rightarrow> Inl e
           | Inr evs \<Rightarrow>
               (case collect_drift evs ([], []) of
                  (types, dets) \<Rightarrow>
                    Inr \<lparr>drift_rule_id = rid, has_drift = (length types > 0),
                         drift_types = types, details = dets,
                         severity =
                           (if ''schema_drift'' \<in> set types then ''high''
                            else if ''reference_drift'' \<in> set types then ''medium''
                            else if types \<noteq> [] then ''low''
                            else ''none'')\<rparr>)))"

record DriftDetectionInput =
  rule_ids :: "string list option"
  notify_on_drift :: bool

record DriftDetectionOutput =
  drift_status :: WorkflowStatus
  rules_checked :: nat
  rules_with_drift :: nat
  drift_results :: "RuleDriftResult list"
  notifications_sent :: nat
  drift_error :: "string option"

text \<open>
  What the runtime and the collaborators contribute to one sweep: the rule loader and
  engine behind the drift check, the outcomes of the two other activities (a result, or
  the message of the exception raised once the retry policy is exhausted), and the form
  in which the drift results reach the workflow (\<^verbatim>\<open>check_rule_drift_activity\<close> is called by
  name, without \<^verbatim>\<open>result_type\<close>).
\<close>

record 'r drift_env =
  checker :: "'r drift_collaborators"
  all_rule_ids_outcome :: "string + string list"
  notify_outcome :: "RuleDriftResult list \<Rightarrow> string + nat"
  check_results :: result_shape

text \<open>The outcome of \<^verbatim>\<open>workflow.execute_activity("check_rule_drift_activity", args=[rule_id])\<close>:
  the fields of the result the activity returned, or the message of its exception. An
  exception of the call that does not come from the body of the activity (a time-out, a
  lost worker) reaches the workflow in the same way, and stands here as an exception of
  the loader.\<close>

definition check_outcome :: "'r drift_env \<Rightarrow> string \<Rightarrow> string + RuleDriftResult" where
  "check_outcome env rid = check_rule_drift_activity (checker env) rid"

text \<open>The counters and the result list of the workflow object.\<close>

record drift_state =
  checked_rules :: nat
  drift_detected :: nat
  s_drift_results :: "RuleDriftResult list"

text \<open>\<^verbatim>\<open>await asyncio.gather(*tasks)\<close> without \<^verbatim>\<open>return_exceptions\<close>: the list of all
  results, or an exception of a task that raised (here the first in task order; which
  one arrives first is up to the scheduler).\<close>

fun gather :: "(string + 'a) list \<Rightarrow> string + 'a list" where
  "gather [] = Inr []"
| "gather (Inl e # outcomes) = Inl e"
| "gather (Inr x # outcomes) = (case gather outcomes of Inl e \<Rightarrow> Inl e | Inr xs \<Rightarrow> Inr (x # xs))"

text \<open>\<^verbatim>\<open>rule_ids[i : i + batch_size] for i in range(0, len(rule_ids), batch_size)\<close>\<close>

function batches :: "nat \<Rightarrow> 'a list \<Rightarrow> 'a list list" where
  "batches n xs = (if n = 0 \<or> xs = [] then [] else take n xs # batches n (drop n xs))"
  by pat_completeness auto
termination
  by (relation "measure (\<lambda>(n, xs). length xs)") auto

declare batches.simps [simp del]

text \<open>The loop \<^verbatim>\<open>for result in batch_results\<close>: the result is appended and counted before
  \<^verbatim>\<open>result.has_drift\<close> is read.\<close>

fun record_results ::
    "result_shape \<Rightarrow> drift_state \<Rightarrow> RuleDriftResult list \<Rightarrow> string option \<times> drift_state" where
  "record_results shape st [] = (None, st)"
| "record_results shape st (r # rs) =
     (let st1 = st\<lparr>s_drift_results := s_drift_results st @ [r],
                   checked_rules := checked_rules st + 1\<rparr>
      in case getattr shape has_drift ''has_drift'' r of
           Inl e \<Rightarrow> (Some e, st1)
         | Inr drifted \<Rightarrow>
             record_results shape
               (if drifted then st1\<lparr>drift_detected := drift_detected st1 + 1\<rparr> else st1) rs)"

fun run_batches ::
    "'r drift_env \<Rightarrow> string list list \<Rightarrow> drift_state \<Rightarrow> string option \<times> drift_state" where
  "run_batches env [] st = (None, st)"
| "run_batches env (batch # rest) st =
     (case gather (map (check_outcome env) batch) of
        Inl e \<Rightarrow> (Some e, st)
      | Inr batch_results \<Rightarrow>
          (case record_results (check_results env) st batch_results of
             (Some e, st') \<Rightarrow> (Some e, st')
           | (None, st') \<Rightarrow> run_batches env rest st'))"

text \<open>The list comprehension that builds \<^verbatim>\<open>drift_results_dicts\<close>: the filter
  \<^verbatim>\<open>if r.has_drift\<close> is read first, then the five attributes.\<close>

definition as_dict :: "result_shape \<Rightarrow> RuleDriftResult \<Rightarrow> string + RuleDriftResult" where
  "as_dict shape r =
     (case getattr shape drift_rule_id ''rule_id'' r of
        Inl e \<Rightarrow> Inl e
      | Inr rid \<Rightarrow>
     (case getattr shape has_drift ''has_drift'' r of
        Inl e \<Rightarrow> Inl e
      | Inr drifted \<Rightarrow>
     (case getattr shape drift_types ''drift_types'' r of
        Inl e \<Rightarrow> Inl e
      | Inr types \<Rightarrow>
     (case getattr shape details ''details'' r of
        Inl e \<Rightarrow> Inl e
      | Inr dets \<Rightarrow>
     (case getattr shape severity ''severity'' r of
        Inl e \<Rightarrow> Inl e
      | Inr sev \<Rightarrow>
          Inr \<lparr>drift_rule_id = rid, has_drift = drifted, drift_types = types, details = dets,
               severity = sev\<rparr>)))))"

fun drift_results_dicts :: "result_shape \<Rightarrow> RuleDriftResult list \<Rightarrow> string + RuleDriftResult list" where
  "drift_results_dicts shape [] = Inr []"
| "drift_results_dicts shape (r # rs) =
     (case getattr shape has_drift ''has_drift'' r of
        Inl e \<Rightarrow> Inl e
      | Inr drifted \<Rightarrow>
          if drifted then
            (case as_dict shape r of
               Inl e \<Rightarrow> Inl e
             | Inr d \<Rightarrow>
                 (case drift_results_dicts shape rs of
                    Inl e \<Rightarrow> Inl e
                  | Inr ds \<Rightarrow> Inr (d # ds)))
          else drift_results_dicts shape rs)"

definition drift_output :: "WorkflowStatus \<Rightarrow> drift_state \<Rightarrow> nat \<Rightarrow> string option \<Rightarrow> DriftDetectionOutput" where
  "drift_output s st sent err =
     \<lparr>drift_status = s, rules_checked = checked_rules st, rules_with_drift = drift_detected st,
      drift_results = s_drift_results st, notifications_sent = sent, drift_error = err\<rparr>"

text \<open>Phase 1: \<^verbatim>\<open>if input.rule_ids\<close> is false for \<^verbatim>\<open>None\<close> and for the empty list, and the
  ids are then fetched.\<close>

definition resolve_rule_ids :: "'r drift_env \<Rightarrow> DriftDetectionInput \<Rightarrow> string + string list" where
  "resolve_rule_ids env inp =
     (case rule_ids inp of
        Some ids \<Rightarrow> if ids \<noteq> [] then Inr ids else all_rule_ids_outcome env
      | None \<Rightarrow> all_rule_ids_outcome env)"

definition drift_run :: "'r drift_env \<Rightarrow> DriftDetectionInput \<Rightarrow> DriftDetectionOutput" where
  "drift_run env inp =
     (let st0 = \<lparr>checked_rules = 0, drift_detected = 0, s_drift_results = []\<rparr>
      in case resolve_rule_ids env inp of
           Inl e \<Rightarrow> drift_output FAILED st0 0 (Some e)
         | Inr ids \<Rightarrow>
             (case run_batches env (batches 10 ids) st0 of
                (Some e, st) \<Rightarrow> drift_output FAILED st 0 (Some e)
              | (None, st) \<Rightarrow>
                  if notify_on_drift inp \<and> drift_detected st > 0 then
                    (case drift_results_dicts (check_results env) (s_drift_results st) of
                       Inl e \<Rightarrow> drift_output FAILED st 0 (Some e)
                     | Inr dicts \<Rightarrow>
                         (case notify_outcome env dicts of
                            Inl e \<Rightarrow> drift_output FAILED st 0 (Some e)
                          | Inr sent \<Rightarrow> drift_output COMPLETED st sent None))
                  else drift_output COMPLETED st 0 None))"

text \<open>The number of rule ids before the first one whose check raises, and the number of
  rule ids in the batches that lie wholly before it.\<close>

definition first_failure :: "'r drift_env \<Rightarrow> string list \<Rightarrow> nat" where
  "first_failure env ids = length (takeWhile (\<lambda>x. \<not> isl (check_outcome env x)) ids)"

definition recorded :: "'r drift_env \<Rightarrow> nat \<Rightarrow> string list \<Rightarrow> nat" where
  "recorded env n ids =
     (if first_failure env ids = length ids then length ids
      else n * (first_failure env ids div n))"

text \<open>Three rules: one that is checked without findings, one that no longer exists, and
  one whose schema check raises; the ids fetched by \<^verbatim>\<open>get_all_rule_ids_activity\<close> are given
  with the environment.\<close>

definition example_drift_collaborators :: "string drift_collaborators" where
  "example_drift_collaborators =
     \<lparr>get_rule = (\<lambda>rid. Inr (if rid = ''rule_gone'' then None else Some rid)),
      verify_tier0 = (\<lambda>r. if r = ''rule_b'' then Inl ''schema check crashed'' else Inr [])\<rparr>"

definition example_drift_env :: "string list \<Rightarrow> result_shape \<Rightarrow> string drift_env" where
  "example_drift_env all_ids shape =
     \<lparr>checker = example_drift_collaborators,
      all_rule_ids_outcome = Inr all_ids,
      notify_outcome = (\<lambda>rs. Inr (length rs)),
      check_results = shape\<rparr>"

text \<open>A sweep over two rules in which the check of the second raises: the run fails and
  the result of the first rule is not kept.\<close>

theorem drift_check_failure_fails_sweep:
  "check_rule_drift_activity example_drift_collaborators ''rule_a'' =
     Inr \<lparr>drift_rule_id = ''rule_a'', has_drift = False, drift_types = [], details = [],
          severity = ''none''\<rparr> \<and>
   check_rule_drift_activity example_drift_collaborators ''rule_b'' = Inl ''schema check crashed'' \<and>
   drift_run (example_drift_env [] AsDict)
       \<lparr>rule_ids = Some [''rule_a'', ''rule_b''], notify_on_drift = True\<rparr> =
     \<lparr>drift_status = FAILED, rules_checked = 0, rules_with_drift = 0, drift_results = [],
      notifications_sent = 0, drift_error = Some ''schema check crashed''\<rparr>"
  by (simp add: drift_run_def resolve_rule_ids_def example_drift_env_def
      example_drift_collaborators_def check_outcome_def
      check_rule_drift_activity_def drift_output_def batches.simps Let_def)

lemma gather_all:
  assumes "\<forall>y\<in>set ys. \<not> isl y"
  shows "gather ys = Inr (map projr ys)"
  using assms
proof (induction ys)
  case Nil
  then show ?case by simp
next
  case (Cons y ys)
  then show ?case by (cases y) simp_all
qed

lemma gather_some_failed:
  assumes "\<exists>y\<in>set ys. isl y"
  shows "\<exists>e. gather ys = Inl e \<and> Inl e \<in> set ys"
  using assms
proof (induction ys)
  case Nil
  then show ?case by simp
next
  case (Cons y ys)
  show ?case
  proof (cases y)
    case (Inl e)
    then show ?thesis by simp
  next
    case (Inr x)
    with Cons.prems have "\<exists>y\<in>set ys. isl y" by auto
    from Cons.IH [OF this] Inr show ?thesis by auto
  qed
qed

lemma length_takeWhile_all:
  "length (takeWhile P xs) = length xs \<longleftrightarrow> (\<forall>x\<in>set xs. P x)"
proof
  assume "length (takeWhile P xs) = length xs"
  then have "takeWhile P xs = xs"
    using takeWhile_eq_take [of P xs] by simp
  then show "\<forall>x\<in>set xs. P x" by simp
next
  assume "\<forall>x\<in>set xs. P x"
  then have "takeWhile P xs = xs" by simp
  then show "length (takeWhile P xs) = length xs" by (rule arg_cong)
qed

lemma length_takeWhile_less:
  assumes "\<exists>x\<in>set xs. \<not> P x"
  shows "length (takeWhile P xs) < length xs"
  using assms length_takeWhile_all [of P xs] length_takeWhile_le [of P xs]
  by (simp add: nat_less_le)


text \<open>Recording a batch: with instances every result is recorded; with dicts the first
  one is appended and counted, and the read of \<^verbatim>\<open>has_drift\<close> raises.\<close>

lemma record_results_instance:
  "record_results AsInstance st rs =
     (None, st\<lparr>s_drift_results := s_drift_results st @ rs,
               checked_rules := checked_rules st + length rs,
               drift_detected := drift_detected st + length (filter has_drift rs)\<rparr>)"
  by (induction rs arbitrary: st) (simp_all add: Let_def)

lemma record_results_dict:
  "record_results AsDict st (r # rs) =
     (Some (attribute_error ''has_drift''),
      st\<lparr>s_drift_results := s_drift_results st @ [r], checked_rules := checked_rules st + 1\<rparr>)"
  by (simp add: Let_def)

lemma record_results_prefix:
  assumes "record_results shape st rs = (exc, st')"
  shows "\<exists>k\<le>length rs. s_drift_results st' = s_drift_results st @ take k rs \<and>
           checked_rules st' = checked_rules st + k \<and>
           (exc = None \<longrightarrow> k = length rs) \<and>
           (shape = AsInstance \<longrightarrow> exc = None) \<and>
           (\<forall>e. exc = Some e \<longrightarrow> e = attribute_error ''has_drift'')"
proof (cases shape)
  case AsInstance
  with assms record_results_instance [of st rs] show ?thesis
    by (intro exI [of _ "length rs"]) auto
next
  case AsDict
  show ?thesis
  proof (cases rs)
    case Nil
    with assms show ?thesis by simp
  next
    case (Cons r rest)
    with assms AsDict record_results_dict [of st r rest] show ?thesis
      by (intro exI [of _ 1]) auto
  qed
qed

lemma first_failure_all_ok:
  "first_failure env ids = length ids \<longleftrightarrow> (\<forall>x\<in>set ids. \<not> isl (check_outcome env x))"
  unfolding first_failure_def by (rule length_takeWhile_all)

text \<open>The loop over the batches: what is recorded is a prefix of the results of the
  batches that lie wholly before the first failing rule.\<close>

lemma run_batches_prefix:
  assumes "0 < n" and "run_batches env (batches n ids) st = (exc, st')"
  shows "\<exists>k\<le>recorded env n ids.
           s_drift_results st' =
             s_drift_results st @ map (projr \<circ> check_outcome env) (take k ids) \<and>
           checked_rules st' = checked_rules st + k \<and>
           (first_failure env ids \<noteq> length ids \<longrightarrow> exc \<noteq> None) \<and>
           (first_failure env ids < n \<and> first_failure env ids \<noteq> length ids \<longrightarrow>
              k = 0 \<and> (\<exists>e. exc = Some e \<and> (\<exists>x\<in>set ids. check_outcome env x = Inl e))) \<and>
           (\<forall>e. exc = Some e \<longrightarrow>
              (\<exists>x\<in>set ids. check_outcome env x = Inl e) \<or> e = attribute_error ''has_drift'') \<and>
           (check_results env = AsInstance \<longrightarrow>
              k = recorded env n ids \<and> (exc = None \<longleftrightarrow> first_failure env ids = length ids) \<and>
              (\<forall>e. exc = Some e \<longrightarrow> (\<exists>x\<in>set ids. check_outcome env x = Inl e)))"
  using assms
proof (induction n ids arbitrary: st rule: batches.induct)
  case (1 n xs)
  let ?ok = "\<lambda>x. \<not> isl (check_outcome env x)"
  let ?f = "projr \<circ> check_outcome env"
  show ?case
  proof (cases "xs = []")
    case True
    with "1.prems" show ?thesis
      by (simp add: batches.simps recorded_def first_failure_def)
  next
    case False
    let ?batch = "take n xs" and ?rest = "drop n xs"
    have b: "batches n xs = ?batch # batches n ?rest"
      using False "1.prems"(1) by (subst batches.simps) simp
    have split: "xs = ?batch @ ?rest" by simp
    show ?thesis
    proof (cases "\<forall>x\<in>set ?batch. ?ok x")
      case True
      then have g: "gather (map (check_outcome env) ?batch) = Inr (map ?f ?batch)"
        using gather_all [of "map (check_outcome env) ?batch"] by simp
      obtain exc1 st1 where rr:
        "record_results (check_results env) st (map ?f ?batch) = (exc1, st1)"
        by (cases "record_results (check_results env) st (map ?f ?batch)")
      from record_results_prefix [OF rr] obtain k1 where
        k1: "k1 \<le> length ?batch"
          "s_drift_results st1 = s_drift_results st @ take k1 (map ?f ?batch)"
          "checked_rules st1 = checked_rules st + k1"
          "exc1 = None \<longrightarrow> k1 = length ?batch"
          "check_results env = AsInstance \<longrightarrow> exc1 = None"
          "\<forall>e. exc1 = Some e \<longrightarrow> e = attribute_error ''has_drift''"
        by auto
      have "k1 \<le> n" using k1(1) by simp
      then have "take k1 ?batch = take k1 xs" by (simp add: min_def)
      then have tk1: "take k1 (map ?f ?batch) = map ?f (take k1 xs)"
        by (simp only: take_map)
      have tw: "takeWhile ?ok xs = ?batch @ takeWhile ?ok ?rest"
        using takeWhile_append2 [of ?batch ?ok ?rest] True by simp
      have ff: "first_failure env xs = length ?batch + first_failure env ?rest"
        unfolding first_failure_def tw by simp
      have all_iff: "first_failure env xs = length xs \<longleftrightarrow> first_failure env ?rest = length ?rest"
        using ff by (metis split length_append add_left_cancel)
      have rec: "recorded env n xs = length ?batch + recorded env n ?rest \<and>
                 take (recorded env n xs) xs = ?batch @ take (recorded env n ?rest) ?rest"
      proof (cases "first_failure env ?rest = length ?rest")
        case True
        with all_iff have "recorded env n xs = length xs" "recorded env n ?rest = length ?rest"
          by (simp_all add: recorded_def)
        then show ?thesis by simp
      next
        case False
        then have "first_failure env ?rest < length ?rest"
          unfolding first_failure_def using length_takeWhile_le [of ?ok ?rest] by simp
        then have long: "n < length xs" by simp
        then have lb: "length ?batch = n" by simp
        have "recorded env n xs = n * ((n + first_failure env ?rest) div n)"
          using False all_iff ff lb by (simp add: recorded_def)
        also have "\<dots> = n + n * (first_failure env ?rest div n)"
          using "1.prems"(1) by (simp add: algebra_simps)
        finally have r: "recorded env n xs = n + recorded env n ?rest"
          using False by (simp add: recorded_def)
        have "take (n + recorded env n ?rest) xs = ?batch @ take (recorded env n ?rest) ?rest"
          by (simp add: take_add)
        with r lb show ?thesis by simp
      qed
      have early: "\<not> (first_failure env xs < n \<and> first_failure env xs \<noteq> length xs)"
      proof
        assume a: "first_failure env xs < n \<and> first_failure env xs \<noteq> length xs"
        with ff have "length ?batch < n" by simp
        then have "length xs < n" by simp
        then have "?rest = []" by simp
        with all_iff a show False by (simp add: first_failure_def)
      qed
      show ?thesis
      proof (cases exc1)
        case (Some e1)
        with "1.prems"(2) b g rr have res: "exc = Some e1" "st' = st1" by simp_all
        from Some k1(5,6) have d: "check_results env \<noteq> AsInstance" "e1 = attribute_error ''has_drift''"
          by auto
        have le: "k1 \<le> recorded env n xs"
          using k1(1) conjunct1 [OF rec] by linarith
        from le k1(2,3) tk1 res d early show ?thesis
          by (intro exI [of _ k1]) auto
      next
        case None
        with k1(4) have k1l: "k1 = length ?batch" by simp
        from "1.prems"(2) b g rr None have run: "run_batches env (batches n ?rest) st1 = (exc, st')"
          by simp
        have n0: "\<not> (n = 0 \<or> xs = [])" using False "1.prems"(1) by simp
        from "1.IH" [OF n0 "1.prems"(1) run] obtain k2 where
          k2: "k2 \<le> recorded env n ?rest"
            "s_drift_results st' = s_drift_results st1 @ map ?f (take k2 ?rest)"
            "checked_rules st' = checked_rules st1 + k2"
            "first_failure env ?rest \<noteq> length ?rest \<longrightarrow> exc \<noteq> None"
            "\<forall>e. exc = Some e \<longrightarrow>
               (\<exists>x\<in>set ?rest. check_outcome env x = Inl e) \<or> e = attribute_error ''has_drift''"
            "check_results env = AsInstance \<longrightarrow>
               k2 = recorded env n ?rest \<and> (exc = None \<longleftrightarrow> first_failure env ?rest = length ?rest) \<and>
               (\<forall>e. exc = Some e \<longrightarrow> (\<exists>x\<in>set ?rest. check_outcome env x = Inl e))"
          by blast
        have errs: "(\<exists>x\<in>set ?rest. check_outcome env x = Inl e) \<longrightarrow>
                    (\<exists>x\<in>set xs. check_outcome env x = Inl e)" for e
          by (meson in_set_dropD)
        let ?k = "length ?batch + k2"
        have tk: "take ?k xs = ?batch @ take k2 ?rest"
        proof (cases "n < length xs")
          case True
          then have "length ?batch = n" by simp
          then show ?thesis by (simp add: take_add)
        next
          case False
          then show ?thesis by simp
        qed
        have c0: "?k \<le> recorded env n xs"
          using k2(1) conjunct1 [OF rec] by linarith
        have c1: "s_drift_results st' = s_drift_results st @ map ?f (take ?k xs)"
          using k2(2) k1(2) k1l tk by simp
        have c2: "checked_rules st' = checked_rules st + ?k"
          using k2(3) k1(3) k1l by simp
        have c3: "first_failure env xs \<noteq> length xs \<longrightarrow> exc \<noteq> None"
          using k2(4) all_iff by simp
        have c4: "first_failure env xs < n \<and> first_failure env xs \<noteq> length xs \<longrightarrow>
              ?k = 0 \<and> (\<exists>e. exc = Some e \<and> (\<exists>x\<in>set xs. check_outcome env x = Inl e))"
          using early by blast
        have c5: "\<forall>e. exc = Some e \<longrightarrow>
              (\<exists>x\<in>set xs. check_outcome env x = Inl e) \<or> e = attribute_error ''has_drift''"
          using k2(5) errs by blast
        have c6: "check_results env = AsInstance \<longrightarrow>
              ?k = recorded env n xs \<and> (exc = None \<longleftrightarrow> first_failure env xs = length xs) \<and>
              (\<forall>e. exc = Some e \<longrightarrow> (\<exists>x\<in>set xs. check_outcome env x = Inl e))"
        proof
          assume inst: "check_results env = AsInstance"
          with k2(6) have i: "k2 = recorded env n ?rest"
            "exc = None \<longleftrightarrow> first_failure env ?rest = length ?rest"
            "\<forall>e. exc = Some e \<longrightarrow> (\<exists>x\<in>set ?rest. check_outcome env x = Inl e)"
            by blast+
          have "?k = recorded env n xs" using i(1) conjunct1 [OF rec] by simp
          moreover have "exc = None \<longleftrightarrow> first_failure env xs = length xs"
            using i(2) all_iff by simp
          moreover have "\<forall>e. exc = Some e \<longrightarrow> (\<exists>x\<in>set xs. check_outcome env x = Inl e)"
            using i(3) errs by blast
          ultimately show "?k = recorded env n xs \<and> (exc = None \<longleftrightarrow> first_failure env xs = length xs) \<and>
              (\<forall>e. exc = Some e \<longrightarrow> (\<exists>x\<in>set xs. check_outcome env x = Inl e))"
            by blast
        qed
        from c0 c1 c2 c3 c4 c5 c6 show ?thesis
          by (intro exI [of _ ?k]) blast
      qed
    next
      case False
      then have "\<exists>y\<in>set (map (check_outcome env) ?batch). isl y" by auto
      from gather_some_failed [OF this] obtain e where
        e: "gather (map (check_outcome env) ?batch) = Inl e" "Inl e \<in> set (map (check_outcome env) ?batch)"
        by blast
      from "1.prems"(2) b e(1) have res: "exc = Some e" "st' = st" by simp_all
      from e(2) have inx: "\<exists>x\<in>set xs. check_outcome env x = Inl e"
        by (auto dest: in_set_takeD)
      have tw: "takeWhile ?ok xs = takeWhile ?ok ?batch"
        using takeWhile_append1 [of _ ?batch ?ok ?rest] False by (metis split)
      have "length (takeWhile ?ok ?batch) < length ?batch"
        by (rule length_takeWhile_less) (use False in auto)
      then have lt: "first_failure env xs < length ?batch"
        unfolding first_failure_def tw .
      then have "first_failure env xs < n" "first_failure env xs \<noteq> length xs"
        by auto
      then have "recorded env n xs = 0"
        by (simp add: recorded_def)
      with res inx \<open>first_failure env xs \<noteq> length xs\<close> show ?thesis
        by (intro exI [of _ 0]) simp
    qed
  qed
qed

lemma drift_run_resolved:
  assumes "resolve_rule_ids env inp = Inr ids"
    and "run_batches env (batches 10 ids)
           \<lparr>checked_rules = 0, drift_detected = 0, s_drift_results = []\<rparr> = (exc, st)"
  shows "drift_run env inp =
     (case exc of
        Some e \<Rightarrow> drift_output FAILED st 0 (Some e)
      | None \<Rightarrow>
          if notify_on_drift inp \<and> drift_detected st > 0 then
            (case drift_results_dicts (check_results env) (s_drift_results st) of
               Inl e \<Rightarrow> drift_output FAILED st 0 (Some e)
             | Inr dicts \<Rightarrow>
                 (case notify_outcome env dicts of
                    Inl e \<Rightarrow> drift_output FAILED st 0 (Some e)
                  | Inr sent \<Rightarrow> drift_output COMPLETED st sent None))
          else drift_output COMPLETED st 0 None)"
  using assms by (simp add: drift_run_def Let_def split: option.splits)

text \<open>
  Claim C9, amended. For the resolved list of rule ids (the ids of the input, or those
  fetched when the input names none): a rule id that no longer resolves to a rule is not
  a failure, its drift check returns a drift-result entry (\<^verbatim>\<open>rule_missing\<close>, severity
  \<^verbatim>\<open>critical\<close>). An exception raised by the drift check of some rule is not caught: the run
  ends with status \<^verbatim>\<open>failed\<close> and an error message, and the drift results are results of
  rules in the batches of ten that lie wholly before the first failing rule, in order;
  the results of the other rules of the failing batch are lost with it. When the failing
  rule is among the first ten, there is no drift result at all and the error is that of a
  failing check.
\<close>

theorem drift_check_failure_not_isolated:
  assumes ids: "resolve_rule_ids env inp = Inr ids"
  shows
    "(\<forall>rid\<in>set ids. get_rule (checker env) rid = Inr None \<longrightarrow>
        check_outcome env rid =
          Inr \<lparr>drift_rule_id = rid, has_drift = True, drift_types = [''rule_missing''],
               details = [''Rule no longer exists in rule data''], severity = ''critical''\<rparr>) \<and>
     ((\<exists>x\<in>set ids. isl (check_outcome env x)) \<longrightarrow>
        drift_status (drift_run env inp) = FAILED \<and>
        drift_error (drift_run env inp) \<noteq> None \<and>
        rules_checked (drift_run env inp) \<le> 10 * (first_failure env ids div 10) \<and>
        drift_results (drift_run env inp) =
          map (projr \<circ> check_outcome env) (take (rules_checked (drift_run env inp)) ids) \<and>
        (first_failure env ids < 10 \<longrightarrow>
           drift_results (drift_run env inp) = [] \<and>
           (\<exists>x\<in>set ids. \<exists>e. check_outcome env x = Inl e \<and>
              drift_error (drift_run env inp) = Some e)))"
proof -
  let ?st0 = "\<lparr>checked_rules = 0, drift_detected = 0, s_drift_results = []\<rparr>"
  obtain exc st where loop: "run_batches env (batches 10 ids) ?st0 = (exc, st)"
    by (cases "run_batches env (batches 10 ids) ?st0")
  from run_batches_prefix [OF _ loop] obtain k where
    p: "k \<le> recorded env 10 ids"
      "s_drift_results st = map (projr \<circ> check_outcome env) (take k ids)"
      "checked_rules st = k"
      "first_failure env ids \<noteq> length ids \<longrightarrow> exc \<noteq> None"
      "first_failure env ids < 10 \<and> first_failure env ids \<noteq> length ids \<longrightarrow>
         k = 0 \<and> (\<exists>e. exc = Some e \<and> (\<exists>x\<in>set ids. check_outcome env x = Inl e))"
    by auto
  note run = drift_run_resolved [OF ids loop]
  have missing: "\<forall>rid\<in>set ids. get_rule (checker env) rid = Inr None \<longrightarrow>
        check_outcome env rid =
          Inr \<lparr>drift_rule_id = rid, has_drift = True, drift_types = [''rule_missing''],
               details = [''Rule no longer exists in rule data''], severity = ''critical''\<rparr>"
    by (simp add: check_outcome_def check_rule_drift_activity_def)
  have failed: "drift_status (drift_run env inp) = FAILED \<and>
        drift_error (drift_run env inp) \<noteq> None \<and>
        rules_checked (drift_run env inp) \<le> 10 * (first_failure env ids div 10) \<and>
        drift_results (drift_run env inp) =
          map (projr \<circ> check_outcome env) (take (rules_checked (drift_run env inp)) ids) \<and>
        (first_failure env ids < 10 \<longrightarrow>
           drift_results (drift_run env inp) = [] \<and>
           (\<exists>x\<in>set ids. \<exists>e. check_outcome env x = Inl e \<and>
              drift_error (drift_run env inp) = Some e))"
    if "\<exists>x\<in>set ids. isl (check_outcome env x)"
  proof -
    from that have nf: "first_failure env ids \<noteq> length ids"
      by (simp add: first_failure_all_ok)
    with p(4) obtain e where e: "exc = Some e" by (cases exc) auto
    have r: "recorded env 10 ids = 10 * (first_failure env ids div 10)"
      using nf by (simp add: recorded_def)
    from run e have out: "drift_run env inp = drift_output FAILED st 0 (Some e)"
      by simp
    have c1: "drift_status (drift_run env inp) = FAILED" "drift_error (drift_run env inp) \<noteq> None"
      "rules_checked (drift_run env inp) = k"
      "drift_results (drift_run env inp) = map (projr \<circ> check_outcome env) (take k ids)"
      unfolding out using p(2,3) by (simp_all add: drift_output_def)
    have c2: "drift_results (drift_run env inp) = [] \<and>
           (\<exists>x\<in>set ids. \<exists>e. check_outcome env x = Inl e \<and>
              drift_error (drift_run env inp) = Some e)"
      if "first_failure env ids < 10"
    proof -
      from p(5) that nf e have "k = 0" "\<exists>x\<in>set ids. check_outcome env x = Inl e"
        by auto
      with c1(4) out show ?thesis
        by (simp add: drift_output_def)
    qed
    from c1 c2 p(1) r show ?thesis
      by simp
  qed
  from missing failed show ?thesis by blast
qed

text \<open>
  What happens when no check raises is decided by the form of the results. The loop is
  written for instances, and with instances the sweep completes with one entry per rule
  id; with the dicts that arrive, the first result is appended and counted, the read of
  \<^verbatim>\<open>result.has_drift\<close> raises, and the sweep ends failed.
\<close>

lemma as_dict_instance: "as_dict AsInstance r = Inr r"
  by (simp add: as_dict_def)

lemma drift_results_dicts_instance:
  "drift_results_dicts AsInstance rs = Inr (filter has_drift rs)"
  by (induction rs) (simp_all add: as_dict_instance)

lemma drift_run_given_instances:
  assumes ids: "resolve_rule_ids env inp = Inr ids"
    and inst: "check_results env = AsInstance"
    and ok: "\<forall>x\<in>set ids. \<not> isl (check_outcome env x)"
    and nt: "\<forall>rs. \<not> isl (notify_outcome env rs)"
  shows "drift_status (drift_run env inp) = COMPLETED \<and>
         drift_results (drift_run env inp) = map (projr \<circ> check_outcome env) ids \<and>
         rules_checked (drift_run env inp) = length ids"
proof -
  let ?st0 = "\<lparr>checked_rules = 0, drift_detected = 0, s_drift_results = []\<rparr>"
  obtain exc st where loop: "run_batches env (batches 10 ids) ?st0 = (exc, st)"
    by (cases "run_batches env (batches 10 ids) ?st0")
  from ok have af: "first_failure env ids = length ids"
    by (simp add: first_failure_all_ok)
  then have r: "recorded env 10 ids = length ids"
    by (simp add: recorded_def)
  from run_batches_prefix [OF _ loop] inst af r have
    p: "s_drift_results st = map (projr \<circ> check_outcome env) ids"
      "checked_rules st = length ids" "exc = None"
    by auto
  have "\<not> isl (notify_outcome env (filter has_drift (s_drift_results st)))"
    using nt by blast
  then obtain sent where "notify_outcome env (filter has_drift (s_drift_results st)) = Inr sent"
    by (cases "notify_outcome env (filter has_drift (s_drift_results st))") auto
  with drift_run_resolved [OF ids loop] p inst show ?thesis
    by (simp add: drift_output_def drift_results_dicts_instance)
qed

lemma drift_run_given_dicts:
  assumes ids: "resolve_rule_ids env inp = Inr (x # xs)"
    and dict: "check_results env = AsDict"
    and ok: "\<forall>y\<in>set (take 10 (x # xs)). \<not> isl (check_outcome env y)"
  shows "drift_run env inp =
     \<lparr>drift_status = FAILED, rules_checked = 1, rules_with_drift = 0,
      drift_results = [projr (check_outcome env x)], notifications_sent = 0,
      drift_error = Some (attribute_error ''has_drift'')\<rparr>"
proof -
  let ?st0 = "\<lparr>checked_rules = 0, drift_detected = 0, s_drift_results = []\<rparr>"
  let ?f = "projr \<circ> check_outcome env"
  have t: "take 10 (x # xs) = x # take 9 xs"
    by (simp add: take_Cons')
  have b: "batches 10 (x # xs) = (x # take 9 xs) # batches 10 (drop 10 (x # xs))"
    by (subst batches.simps) (simp add: t)
  have "\<forall>y\<in>set (map (check_outcome env) (x # take 9 xs)). \<not> isl y"
    using ok unfolding t by simp
  from gather_all [OF this]
  have g: "gather (map (check_outcome env) (x # take 9 xs)) = Inr (?f x # map ?f (take 9 xs))"
    by simp
  have "run_batches env (batches 10 (x # xs)) ?st0 =
        (Some (attribute_error ''has_drift''),
         ?st0\<lparr>s_drift_results := s_drift_results ?st0 @ [?f x],
               checked_rules := checked_rules ?st0 + 1\<rparr>)"
    by (simp only: b run_batches.simps g sum.case dict record_results_dict prod.case option.case)
  from drift_run_resolved [OF ids this] show ?thesis
    by (simp add: drift_output_def)
qed

text \<open>The ids are fetched; the check of the third rule raises, the second rule no longer
  exists.\<close>

theorem drift_check_failure_not_isolated_witness:
  "resolve_rule_ids (example_drift_env [''rule_a'', ''rule_gone'', ''rule_b''] AsDict)
       \<lparr>rule_ids = None, notify_on_drift = True\<rparr> = Inr [''rule_a'', ''rule_gone'', ''rule_b''] \<and>
   get_rule example_drift_collaborators ''rule_gone'' = Inr None \<and>
   check_outcome (example_drift_env [''rule_a'', ''rule_gone'', ''rule_b''] AsDict) ''rule_gone'' =
     Inr \<lparr>drift_rule_id = ''rule_gone'', has_drift = True, drift_types = [''rule_missing''],
          details = [''Rule no longer exists in rule data''], severity = ''critical''\<rparr> \<and>
   isl (check_outcome (example_drift_env [''rule_a'', ''rule_gone'', ''rule_b''] AsDict) ''rule_b'') \<and>
   first_failure (example_drift_env [''rule_a'', ''rule_gone'', ''rule_b''] AsDict)
     [''rule_a'', ''rule_gone'', ''rule_b''] = 2 \<and>
   drift_status (drift_run (example_drift_env [''rule_a'', ''rule_gone'', ''rule_b''] AsDict)
       \<lparr>rule_ids = None, notify_on_drift = True\<rparr>) = FAILED \<and>
   drift_results (drift_run (example_drift_env [''rule_a'', ''rule_gone'', ''rule_b''] AsDict)
       \<lparr>rule_ids = None, notify_on_drift = True\<rparr>) = []"
proof -
  let ?ids = "[''rule_a'', ''rule_gone'', ''rule_b'']"
  let ?env = "example_drift_env ?ids AsDict"
  let ?inp = "\<lparr>rule_ids = None, notify_on_drift = True\<rparr>"
  have ids: "resolve_rule_ids ?env ?inp = Inr ?ids"
    by (simp add: resolve_rule_ids_def example_drift_env_def)
  have gone: "get_rule (checker ?env) ''rule_gone'' = Inr None"
    "get_rule example_drift_collaborators ''rule_gone'' = Inr None"
    by (simp_all add: example_drift_env_def example_drift_collaborators_def)
  have mem: "''rule_gone'' \<in> set ?ids" "''rule_b'' \<in> set ?ids"
    by simp_all
  have raised: "isl (check_outcome ?env ''rule_b'')"
    by (simp add: check_outcome_def example_drift_env_def example_drift_collaborators_def
        check_rule_drift_activity_def)
  have ff: "first_failure ?env ?ids = 2"
    by (simp add: first_failure_def check_outcome_def example_drift_env_def
        example_drift_collaborators_def check_rule_drift_activity_def)
  note main = drift_check_failure_not_isolated [OF ids]
  from main mem(1) gone(1) have entry: "check_outcome ?env ''rule_gone'' =
     Inr \<lparr>drift_rule_id = ''rule_gone'', has_drift = True, drift_types = [''rule_missing''],
          details = [''Rule no longer exists in rule data''], severity = ''critical''\<rparr>"
    by blast
  have ex: "\<exists>x\<in>set ?ids. isl (check_outcome ?env x)"
    using mem(2) raised by blast
  from main ex have f: "drift_status (drift_run ?env ?inp) = FAILED"
    "first_failure ?env ?ids < 10 \<longrightarrow> drift_results (drift_run ?env ?inp) = []"
    by blast+
  from f(2) ff have "drift_results (drift_run ?env ?inp) = []"
    by simp
  with ids gone(2) entry raised ff f(1) show ?thesis
    by blast
qed

text \<open>The same environment when no check raises: the sweep over the two other rules ends
  failed after the first result.\<close>

lemma drift_sweep_attribute_error:
  "drift_run (example_drift_env [''rule_a'', ''rule_gone''] AsDict)
       \<lparr>rule_ids = Some [], notify_on_drift = True\<rparr> =
     \<lparr>drift_status = FAILED, rules_checked = 1, rules_with_drift = 0,
      drift_results =
        [\<lparr>drift_rule_id = ''rule_a'', has_drift = False, drift_types = [], details = [],
          severity = ''none''\<rparr>],
      notifications_sent = 0,
      drift_error =
        Some (quoted ''dict'' @ '' object has no attribute '' @ quoted ''has_drift'')\<rparr>"
  by (simp add: drift_run_def resolve_rule_ids_def example_drift_env_def
      example_drift_collaborators_def check_outcome_def check_rule_drift_activity_def
      drift_output_def batches.simps Let_def attribute_error_def)

end
